theory Spec2Isabelle
  imports Complex_Main "HOL-Library.AList" "HOL-Library.Multiset"
begin

section \<open>Data model\<close>

text \<open>
  The hooks \<^verbatim>\<open>useWebOfTrust\<close> (the collector with analytics) and \<^verbatim>\<open>useSocialGraph\<close>
  (the second traversal hook) are embedded below.

  An identity is a JavaScript string. The collector reads the second field of a tag
  array without checking that it is there, so the value it handles is a string or
  \<^verbatim>\<open>undefined\<close>: \<open>None\<close> stands for \<^verbatim>\<open>undefined\<close>. A template literal prints
  \<^verbatim>\<open>undefined\<close> as the nine letters \<^verbatim>\<open>undefined\<close>.
\<close>

type_synonym pubkey = "string option"

fun template :: "pubkey \<Rightarrow> string" where
  "template None = ''undefined''"
| "template (Some s) = s"

text \<open>JavaScript truthiness of an optional string (\<^verbatim>\<open>if (startPubkey)\<close>).\<close>

fun truthy :: "pubkey \<Rightarrow> bool" where
  "truthy None = False"
| "truthy (Some s) = (s \<noteq> [])"

text \<open>
  A record as the fetcher returns it. Only the author and the tags are read by the
  collector; \<open>content\<close> and \<open>created_at\<close> matter to the profile step of
  \<^verbatim>\<open>useSocialGraph\<close> alone. A tag is an array of strings of any length.
\<close>

record event =
  pubkey :: string
  tags :: "string list list"

text \<open>Reading index \<open>i\<close> of a JavaScript array: \<^verbatim>\<open>undefined\<close> when out of range.\<close>

definition at_index :: "'a list \<Rightarrow> nat \<Rightarrow> 'a option" where
  "at_index xs i = (if i < length xs then Some (xs ! i) else None)"

text \<open>
  \<^verbatim>\<open>GraphNode\<close>. \<open>val\<close> is a JavaScript number; the analytics divide a degree by 5
  and by 2, so it is a real here. The optional \<^verbatim>\<open>name\<close> is never written by the hook
  and is left out.
\<close>

record GraphNode =
  node_id :: pubkey
  val :: real
  inDegree :: nat
  outDegree :: nat
  isHub :: bool
  cluster :: "nat option"
  degreesFromRoot :: "nat option"

record GraphLink =
  source :: pubkey
  target :: pubkey
  isBidirectional :: bool

record Stats =
  totalNodes :: nat
  totalLinks :: nat
  hubs :: nat
  bidirectionalLinks :: nat
  clusters :: nat

record GraphData =
  nodes :: "GraphNode list"
  links :: "GraphLink list"
  stats :: Stats

text \<open>
  A query filter and the fetcher. The fetcher is an external collaborator: any function
  from the number of queries issued before and the filter to a list of records, or
  \<open>None\<close> when the query is rejected (network failure, abort, timeout); a rejected
  query rejects the whole run and no snapshot is produced.
\<close>

record query_filter =
  flt_kinds :: "nat list"
  flt_authors :: "pubkey list option"
  flt_limit :: "nat option"

type_synonym fetcher = "nat \<Rightarrow> query_filter \<Rightarrow> event list option"

text \<open>
  A JavaScript \<^verbatim>\<open>Map\<close> keeps its entries in insertion order and \<^verbatim>\<open>set\<close> on a
  present key replaces the value in place: an association list with
  \<^const>\<open>AList.update\<close>. Mutating the object stored under a key is
  \<^const>\<open>AList.map_entry\<close>.
\<close>

abbreviation Map_has :: "('k \<times> 'v) list \<Rightarrow> 'k \<Rightarrow> bool" where
  "Map_has m k \<equiv> k \<in> fst ` set m"

abbreviation Map_values :: "('k \<times> 'v) list \<Rightarrow> 'v list" where
  "Map_values m \<equiv> map snd m"

section \<open>The collector of useWebOfTrust\<close>

record collector =
  nodesMap :: "(pubkey \<times> GraphNode) list"
  linksMap :: "(string \<times> GraphLink) list"
  processed :: "pubkey set"
  toProcess :: "(pubkey \<times> nat) list"
  queries :: nat

definition new_node :: "pubkey \<Rightarrow> real \<Rightarrow> GraphNode" where
  "new_node k v = \<lparr>node_id = k, val = v, inDegree = 0, outDegree = 0, isHub = False,
     cluster = None, degreesFromRoot = None\<rparr>"

definition linkId :: "pubkey \<Rightarrow> pubkey \<Rightarrow> string" where
  "linkId s t = template s @ ''->'' @ template t"

text \<open>The p tags of a record, as the collector extracts them (no check of the value).\<close>

definition followedPubkeys :: "event \<Rightarrow> pubkey list" where
  "followedPubkeys ev =
     map (\<lambda>tag. at_index tag 1) (filter (\<lambda>tag. at_index tag 0 = Some ''p'') (tags ev))"

text \<open>The body of the loop over the followed identities of one record.\<close>

definition add_followed :: "nat \<Rightarrow> nat \<Rightarrow> string \<Rightarrow> pubkey \<Rightarrow> collector \<Rightarrow> collector" where
  "add_followed depth currentLevel author followedPubkey s =
     (let lid = linkId (Some author) followedPubkey;
          s1 = (if \<not> Map_has (linksMap s) lid
                then s\<lparr>linksMap := AList.update lid
                       \<lparr>source = Some author, target = followedPubkey, isBidirectional = False\<rparr>
                       (linksMap s)\<rparr>
                else s)
      in if \<not> Map_has (nodesMap s1) followedPubkey
         then let s2 = s1\<lparr>nodesMap := AList.update followedPubkey (new_node followedPubkey 3)
                            (nodesMap s1)\<rparr>
              in if currentLevel + 1 < depth \<and> followedPubkey \<notin> processed s2
                 then s2\<lparr>toProcess := toProcess s2 @ [(followedPubkey, currentLevel + 1)]\<rparr>
                 else s2
         else s1\<lparr>nodesMap := AList.map_entry followedPubkey
                    (\<lambda>node. node\<lparr>val := min (val node + 1) 20\<rparr>) (nodesMap s1)\<rparr>)"

definition process_event :: "nat \<Rightarrow> nat \<Rightarrow> event \<Rightarrow> collector \<Rightarrow> collector" where
  "process_event depth currentLevel ev s =
     fold (add_followed depth currentLevel (pubkey ev)) (followedPubkeys ev)
       (s\<lparr>processed := insert (Some (pubkey ev)) (processed s)\<rparr>)"

text \<open>
  One iteration of \<^verbatim>\<open>while (toProcess.length > 0)\<close>: the batch is the first 50 entries of
  the frontier, and the level of its first entry is taken as the level of the batch.
\<close>

definition next_batch :: "collector \<Rightarrow> (pubkey \<times> nat) list" where
  "next_batch s = take 50 (toProcess s)"

definition batch_level :: "(pubkey \<times> nat) list \<Rightarrow> nat" where
  "batch_level batch = (case batch of [] \<Rightarrow> 0 | b # _ \<Rightarrow> snd b)"

definition loop_body :: "fetcher \<Rightarrow> nat \<Rightarrow> collector \<Rightarrow> collector option" where
  "loop_body query depth s =
     (let batch = next_batch s;
          s0 = s\<lparr>toProcess := drop 50 (toProcess s)\<rparr>;
          pubkeys = map fst batch;
          currentLevel = batch_level batch
      in if currentLevel \<ge> depth
         then Some (s0\<lparr>processed := processed s0 \<union> set pubkeys\<rparr>)
         else (case query (queries s0) \<lparr>flt_kinds = [3], flt_authors = Some pubkeys, flt_limit = Some 1\<rparr> of
                 None \<Rightarrow> None
               | Some events \<Rightarrow>
                   Some (fold (process_event depth currentLevel) events
                          (s0\<lparr>queries := Suc (queries s0)\<rparr>))))"

text \<open>
  The frontier as a multiset of remaining depths: an iteration removes the batch and adds
  only entries one level deeper than the first entry of the batch.
\<close>

definition frontier_weight :: "nat \<Rightarrow> collector \<Rightarrow> nat multiset" where
  "frontier_weight depth s = mset (map (\<lambda>b. depth - snd b) (toProcess s))"

lemma add_followed_toProcess:
  "\<exists>add. toProcess (add_followed d L a f s) = toProcess s @ add \<and>
         (\<forall>b\<in>set add. snd b = L + 1 \<and> L + 1 < d)"
  by (simp add: add_followed_def Let_def)

lemma fold_add_followed_toProcess:
  "\<exists>add. toProcess (fold (add_followed d L a) fs s) = toProcess s @ add \<and>
         (\<forall>b\<in>set add. snd b = L + 1 \<and> L + 1 < d)"
proof (induction fs arbitrary: s)
  case Nil
  show ?case by simp
next
  case (Cons f fs)
  obtain add1 where a1: "toProcess (add_followed d L a f s) = toProcess s @ add1"
      "\<forall>b\<in>set add1. snd b = L + 1 \<and> L + 1 < d"
    using add_followed_toProcess by blast
  obtain add2 where a2:
      "toProcess (fold (add_followed d L a) fs (add_followed d L a f s)) =
         toProcess (add_followed d L a f s) @ add2"
      "\<forall>b\<in>set add2. snd b = L + 1 \<and> L + 1 < d"
    using Cons.IH by blast
  show ?case
    by (rule exI [of _ "add1 @ add2"]) (use a1 a2 in auto)
qed

lemma process_event_toProcess:
  "\<exists>add. toProcess (process_event d L ev s) = toProcess s @ add \<and>
         (\<forall>b\<in>set add. snd b = L + 1 \<and> L + 1 < d)"
  unfolding process_event_def
  using fold_add_followed_toProcess [of d L "pubkey ev" "followedPubkeys ev"
      "s\<lparr>processed := insert (Some (pubkey ev)) (processed s)\<rparr>"]
  by simp

lemma fold_process_event_toProcess:
  "\<exists>add. toProcess (fold (process_event d L) evs s) = toProcess s @ add \<and>
         (\<forall>b\<in>set add. snd b = L + 1 \<and> L + 1 < d)"
proof (induction evs arbitrary: s)
  case Nil
  show ?case by simp
next
  case (Cons ev evs)
  obtain add1 where a1: "toProcess (process_event d L ev s) = toProcess s @ add1"
      "\<forall>b\<in>set add1. snd b = L + 1 \<and> L + 1 < d"
    using process_event_toProcess by blast
  obtain add2 where a2:
      "toProcess (fold (process_event d L) evs (process_event d L ev s)) =
         toProcess (process_event d L ev s) @ add2"
      "\<forall>b\<in>set add2. snd b = L + 1 \<and> L + 1 < d"
    using Cons.IH by blast
  show ?case
    by (rule exI [of _ "add1 @ add2"]) (use a1 a2 in auto)
qed

text \<open>What one iteration does to the frontier.\<close>

lemma loop_body_toProcess:
  assumes "loop_body q d s = Some s'"
  shows "\<exists>add. toProcess s' = drop 50 (toProcess s) @ add \<and>
           (\<forall>b\<in>set add. snd b = batch_level (next_batch s) + 1 \<and>
                          batch_level (next_batch s) + 1 < d)"
proof (cases "d \<le> batch_level (next_batch s)")
  case True
  with assms have "toProcess s' = drop 50 (toProcess s)"
    by (auto simp: loop_body_def Let_def)
  then show ?thesis by simp
next
  case False
  with assms obtain evs where
    s': "s' = fold (process_event d (batch_level (next_batch s))) evs
            (s\<lparr>toProcess := drop 50 (toProcess s), queries := Suc (queries s)\<rparr>)"
    by (auto simp: loop_body_def Let_def split: option.splits)
  show ?thesis
    unfolding s'
    using fold_process_event_toProcess [of d "batch_level (next_batch s)" evs
       "s\<lparr>toProcess := drop 50 (toProcess s), queries := Suc (queries s)\<rparr>"]
    by simp
qed

lemma loop_body_decreases:
  assumes "loop_body q d s = Some s'" and "toProcess s \<noteq> []"
  shows "frontier_weight d s' < frontier_weight d s"
proof -
  let ?w = "\<lambda>b::pubkey \<times> nat. d - snd b"
  let ?L = "batch_level (next_batch s)"
  obtain add where add: "toProcess s' = drop 50 (toProcess s) @ add"
      "\<forall>b\<in>set add. snd b = ?L + 1 \<and> ?L + 1 < d"
    using loop_body_toProcess [OF assms(1)] by blast
  obtain b bs where bbs: "toProcess s = b # bs"
    using assms(2) by (cases "toProcess s") auto
  have lev: "?L = snd b"
    by (simp add: next_batch_def batch_level_def bbs)
  let ?I = "mset (map ?w (drop 50 (toProcess s)))"
  let ?J = "mset (map ?w (take 50 (toProcess s)))"
  let ?K = "mset (map ?w add)"
  have J: "?J \<noteq> {#}" by (simp add: bbs)
  have bJ: "?w b \<in># ?J" by (simp add: bbs)
  have K: "\<forall>k\<in>#?K. \<exists>j\<in>#?J. k < j"
  proof
    fix k assume "k \<in># ?K"
    then obtain c where c: "c \<in> set add" "k = d - snd c" by auto
    with add(2) lev have "k < ?w b" by auto
    with bJ show "\<exists>j\<in>#?J. k < j" by blast
  qed
  have "multp (<) (?I + ?K) (?I + ?J)"
    by (rule one_step_implies_multp [OF J K])
  moreover have "frontier_weight d s' = ?I + ?K"
    by (simp add: frontier_weight_def add(1))
  moreover have "frontier_weight d s = ?I + ?J"
  proof -
    have "mset (map ?w (toProcess s)) = mset (map ?w (take 50 (toProcess s) @ drop 50 (toProcess s)))"
      by simp
    then show ?thesis
      unfolding frontier_weight_def by (simp only: map_append mset_append add.commute)
  qed
  ultimately show ?thesis by (simp add: less_multiset_def)
qed

function while_loop :: "fetcher \<Rightarrow> nat \<Rightarrow> collector \<Rightarrow> collector option" where
  "while_loop query depth s =
     (if toProcess s = [] then Some s
      else (case loop_body query depth s of
              None \<Rightarrow> None
            | Some s' \<Rightarrow> while_loop query depth s'))"
  by pat_completeness auto
termination
proof (relation "inv_image {(M, N). M < N} (\<lambda>(q, d, s). frontier_weight d s)")
  show "wf (inv_image {(M::nat multiset, N). M < N} (\<lambda>(q, d, s). frontier_weight d s))"
    using wfp_less_multiset [where ?'a = nat] by (simp add: wfp_def)
next
  fix query :: fetcher and depth s s'
  assume "toProcess s \<noteq> []" "loop_body query depth s = Some s'"
  then show "((query, depth, s'), (query, depth, s)) \<in>
      inv_image {(M, N). M < N} (\<lambda>(q, d, s). frontier_weight d s)"
    using loop_body_decreases by simp
qed

text \<open>
  Seeding. With a start identity the frontier is that identity at level 0 and its node has
  importance 10. Without one, a single unscoped query is issued and every record's author
  becomes a level-0 entry with importance 5; the guard on \<open>processed\<close> is evaluated
  while that set is still empty.
\<close>

definition add_seed :: "event \<Rightarrow> collector \<Rightarrow> collector" where
  "add_seed ev s =
     (if Some (pubkey ev) \<notin> processed s
      then s\<lparr>toProcess := toProcess s @ [(Some (pubkey ev), 0)],
             nodesMap := AList.update (Some (pubkey ev)) (new_node (Some (pubkey ev)) 5)
                           (nodesMap s)\<rparr>
      else s)"

definition empty_collector :: collector where
  "empty_collector =
     \<lparr>nodesMap = [], linksMap = [], processed = {}, toProcess = [], queries = 0\<rparr>"

definition seed :: "fetcher \<Rightarrow> pubkey \<Rightarrow> nat \<Rightarrow> collector option" where
  "seed query startPubkey limit =
     (if truthy startPubkey
      then Some (empty_collector\<lparr>toProcess := [(startPubkey, 0)],
                   nodesMap := AList.update startPubkey (new_node startPubkey 10) []\<rparr>)
      else (case query 0 \<lparr>flt_kinds = [3], flt_authors = None, flt_limit = Some limit\<rparr> of
              None \<Rightarrow> None
            | Some recentEvents \<Rightarrow>
                Some (fold add_seed recentEvents (empty_collector\<lparr>queries := 1\<rparr>))))"

definition collect :: "fetcher \<Rightarrow> pubkey \<Rightarrow> nat \<Rightarrow> nat \<Rightarrow> collector option" where
  "collect query startPubkey depth limit =
     (case seed query startPubkey limit of
        None \<Rightarrow> None
      | Some s \<Rightarrow> while_loop query depth s)"

section \<open>Analytics of useWebOfTrust\<close>

text \<open>
  Degrees and bidirectionality. The array \<^verbatim>\<open>links\<close> holds the very objects stored in
  \<^verbatim>\<open>linksMap\<close>, so the loop runs over the entries of the map as they are when it starts
  (source and target are never written again) and each write to a link object is a write
  to the entry of the map under that object's key. The index \<^verbatim>\<open>reverseLinks\<close> built
  before the loop is never read and is left out.
\<close>

definition degree_link :: "string \<times> GraphLink \<Rightarrow> collector \<Rightarrow> collector" where
  "degree_link e s =
     (let link = snd e;
          s1 = s\<lparr>nodesMap := AList.map_entry (source link)
                  (\<lambda>node. node\<lparr>outDegree := outDegree node + 1\<rparr>) (nodesMap s)\<rparr>;
          s2 = s1\<lparr>nodesMap := AList.map_entry (target link)
                  (\<lambda>node. node\<lparr>inDegree := inDegree node + 1\<rparr>) (nodesMap s1)\<rparr>;
          reverseLinkId = linkId (target link) (source link)
      in if Map_has (linksMap s2) reverseLinkId
         then s2\<lparr>linksMap := AList.map_entry reverseLinkId (\<lambda>l. l\<lparr>isBidirectional := True\<rparr>)
                   (AList.map_entry (fst e) (\<lambda>l. l\<lparr>isBidirectional := True\<rparr>) (linksMap s2))\<rparr>
         else s2)"

definition degrees :: "collector \<Rightarrow> collector" where
  "degrees s = fold degree_link (linksMap s) s"

text \<open>
  Hubs. With no node the source divides 0 by 0; the loop over the nodes is then empty and
  the average is not used.
\<close>

definition update_hub :: "real \<Rightarrow> GraphNode \<Rightarrow> GraphNode" where
  "update_hub hubThreshold node =
     (let totalDegree = inDegree node + outDegree node;
          hub = (real totalDegree \<ge> hubThreshold \<and> totalDegree \<ge> 10)
      in node\<lparr>isHub := hub,
              val := (if hub then max (val node) (15 + min (real totalDegree / 5) 15)
                      else max (val node) (3 + min (real totalDegree / 2) 7))\<rparr>)"

definition detect_hubs :: "GraphNode list \<Rightarrow> GraphNode list" where
  "detect_hubs ns =
     (let avgDegree = real (sum_list (map (\<lambda>n. inDegree n + outDegree n) ns)) / real (length ns);
          hubThreshold = avgDegree * 2
      in map (update_hub hubThreshold) ns)"

text \<open>
  The adjacency map of \<^verbatim>\<open>assignClusters\<close> and \<^verbatim>\<open>calculateDegreesOfSeparation\<close> (the
  same code in both): one empty set per node, then each link adds its target to the set
  of its source and its source to the set of its target, when that key is there. A
  \<^verbatim>\<open>Set\<close> iterates in insertion order: a list without repetition.
\<close>

definition Set_add :: "'a \<Rightarrow> 'a list \<Rightarrow> 'a list" where
  "Set_add x xs = (if x \<in> set xs then xs else xs @ [x])"

type_synonym adjacency = "(pubkey \<times> pubkey list) list"

definition add_adjacent :: "GraphLink \<Rightarrow> adjacency \<Rightarrow> adjacency" where
  "add_adjacent link adj =
     AList.map_entry (target link) (Set_add (source link))
       (AList.map_entry (source link) (Set_add (target link)) adj)"

definition build_adjacency :: "GraphNode list \<Rightarrow> GraphLink list \<Rightarrow> adjacency" where
  "build_adjacency ns ls =
     fold add_adjacent ls (fold (\<lambda>node adj. AList.update (node_id node) [] adj) ns [])"

text \<open>\<^verbatim>\<open>adjacency.get(id) || new Set()\<close>\<close>

definition neighbors_of :: "adjacency \<Rightarrow> pubkey \<Rightarrow> pubkey list" where
  "neighbors_of adj k = (case map_of adj k of None \<Rightarrow> [] | Some ns \<Rightarrow> ns)"

subsection \<open>assignClusters\<close>

text \<open>
  The nodes are the array the function mutates; \<^verbatim>\<open>nodes.find\<close> gives the first node
  with the identity looked for. \<open>assigned\<close> is a history variable: it records, in
  order, the position of the node and the label of every write to a \<^verbatim>\<open>cluster\<close> field,
  and nothing reads it.
\<close>

record clustering =
  c_nodes :: "GraphNode list"
  c_visited :: "pubkey set"
  c_clusterId :: nat
  c_queue :: "pubkey list"
  assigned :: "(nat \<times> nat) list"

fun find_node :: "GraphNode list \<Rightarrow> pubkey \<Rightarrow> nat option" where
  "find_node [] k = None"
| "find_node (n # ns) k = (if node_id n = k then Some 0 else map_option Suc (find_node ns k))"

definition set_cluster :: "nat \<Rightarrow> clustering \<Rightarrow> clustering" where
  "set_cluster i st =
     st\<lparr>c_nodes := (c_nodes st)[i := (c_nodes st ! i)\<lparr>cluster := Some (c_clusterId st)\<rparr>],
        assigned := assigned st @ [(i, c_clusterId st)]\<rparr>"

definition visit_neighbor :: "pubkey \<Rightarrow> clustering \<Rightarrow> clustering" where
  "visit_neighbor neighborId st =
     (case find_node (c_nodes st) neighborId of
        None \<Rightarrow> st
      | Some i \<Rightarrow>
          if neighborId \<notin> c_visited st
          then (set_cluster i (st\<lparr>c_visited := insert neighborId (c_visited st)\<rparr>))
                 \<lparr>c_queue := c_queue st @ [neighborId]\<rparr>
          else st)"

text \<open>
  The inner \<^verbatim>\<open>for\<close> over the \<open>batchSize\<close> entries that were queued when the level
  started; \<^verbatim>\<open>queue.shift()\<close> of an empty array is \<^verbatim>\<open>undefined\<close>.
\<close>

primrec for_batch :: "adjacency \<Rightarrow> nat \<Rightarrow> clustering \<Rightarrow> clustering" where
  "for_batch adj 0 st = st"
| "for_batch adj (Suc n) st =
     (let currentId = (case c_queue st of [] \<Rightarrow> None | x # _ \<Rightarrow> x);
          st1 = st\<lparr>c_queue := tl (c_queue st)\<rparr>
      in for_batch adj n (fold visit_neighbor (neighbors_of adj currentId) st1))"

function cluster_bfs :: "adjacency \<Rightarrow> nat \<Rightarrow> clustering \<Rightarrow> clustering" where
  "cluster_bfs adj depth st =
     (if c_queue st \<noteq> [] \<and> depth < 2
      then cluster_bfs adj (depth + 1) (for_batch adj (length (c_queue st)) st)
      else st)"
  by pat_completeness auto
termination
  by (relation "measure (\<lambda>(adj, depth, st). 2 - depth)") auto

definition cluster_node :: "adjacency \<Rightarrow> nat \<Rightarrow> clustering \<Rightarrow> clustering" where
  "cluster_node adj i st =
     (let node = c_nodes st ! i
      in if node_id node \<notin> c_visited st
         then let st1 = set_cluster i
                          (st\<lparr>c_queue := [node_id node],
                              c_visited := insert (node_id node) (c_visited st)\<rparr>);
                  st2 = cluster_bfs adj 0 st1
              in st2\<lparr>c_clusterId := c_clusterId st2 + 1\<rparr>
         else st)"

definition assignClusters_run :: "GraphNode list \<Rightarrow> GraphLink list \<Rightarrow> clustering" where
  "assignClusters_run ns ls =
     fold (cluster_node (build_adjacency ns ls)) [0..<length ns]
       \<lparr>c_nodes = ns, c_visited = {}, c_clusterId = 0, c_queue = [], assigned = []\<rparr>"

definition assignClusters :: "GraphNode list \<Rightarrow> GraphLink list \<Rightarrow> GraphNode list" where
  "assignClusters ns ls = c_nodes (assignClusters_run ns ls)"

subsection \<open>calculateDegreesOfSeparation\<close>

text \<open>
  \<^verbatim>\<open>distances\<close> is only read by key and written, so it is a map; the queue holds the
  identity with its distance.
\<close>

type_synonym bfs_state = "(pubkey \<rightharpoonup> nat) \<times> (pubkey \<times> nat) list"

definition visit_distance :: "nat \<Rightarrow> pubkey \<Rightarrow> bfs_state \<Rightarrow> bfs_state" where
  "visit_distance distance neighborId st =
     (if fst st neighborId = None
      then ((fst st)(neighborId \<mapsto> distance + 1), snd st @ [(neighborId, distance + 1)])
      else st)"

definition adjacent_ids :: "adjacency \<Rightarrow> pubkey set" where
  "adjacent_ids adj = (\<Union>e\<in>set adj. set (snd e))"

definition bfs_measure :: "adjacency \<Rightarrow> bfs_state \<Rightarrow> nat" where
  "bfs_measure adj st = card (adjacent_ids adj - dom (fst st)) + length (snd st)"

lemma finite_adjacent_ids: "finite (adjacent_ids adj)"
  by (simp add: adjacent_ids_def)

lemma neighbors_of_adjacent: "set (neighbors_of adj k) \<subseteq> adjacent_ids adj"
proof (cases "map_of adj k")
  case None
  then show ?thesis by (simp add: neighbors_of_def)
next
  case (Some vs)
  then have "(k, vs) \<in> set adj" by (rule map_of_SomeD)
  then have "set vs \<subseteq> adjacent_ids adj"
    by (force simp: adjacent_ids_def)
  with Some show ?thesis by (simp add: neighbors_of_def)
qed

lemma visit_distance_measure:
  "v \<in> adjacent_ids adj \<Longrightarrow> bfs_measure adj (visit_distance d v st) = bfs_measure adj st"
proof (cases "fst st v")
  case None
  assume v: "v \<in> adjacent_ids adj"
  have "adjacent_ids adj - dom (fst st) = insert v (adjacent_ids adj - insert v (dom (fst st)))"
    using v None by auto
  moreover have "v \<notin> adjacent_ids adj - insert v (dom (fst st))" by simp
  ultimately have
    "card (adjacent_ids adj - dom (fst st)) = Suc (card (adjacent_ids adj - insert v (dom (fst st))))"
    using finite_adjacent_ids [of adj] by (metis card_insert_disjoint finite_Diff)
  with None show ?thesis
    by (simp add: bfs_measure_def visit_distance_def)
next
  case (Some a)
  then show ?thesis by (simp add: visit_distance_def)
qed

lemma fold_visit_distance_measure:
  "set vs \<subseteq> adjacent_ids adj \<Longrightarrow>
   bfs_measure adj (fold (visit_distance d) vs st) = bfs_measure adj st"
  by (induction vs arbitrary: st) (simp_all add: visit_distance_measure)

function bfs_loop :: "adjacency \<Rightarrow> bfs_state \<Rightarrow> (pubkey \<rightharpoonup> nat)" where
  "bfs_loop adj st =
     (case snd st of
        [] \<Rightarrow> fst st
      | current # rest \<Rightarrow>
          bfs_loop adj (fold (visit_distance (snd current)) (neighbors_of adj (fst current))
                          (fst st, rest)))"
  by pat_completeness auto
termination
proof (relation "measure (\<lambda>(adj, st). bfs_measure adj st)")
  show "wf (measure (\<lambda>(adj, st). bfs_measure adj st))" by simp
next
  fix adj :: adjacency and st :: bfs_state and current rest
  assume "snd st = current # rest"
  then have "bfs_measure adj (fst st, rest) < bfs_measure adj st"
    by (simp add: bfs_measure_def)
  then show "((adj, fold (visit_distance (snd current)) (neighbors_of adj (fst current))
                  (fst st, rest)), (adj, st)) \<in> measure (\<lambda>(adj, st). bfs_measure adj st)"
    by (simp add: fold_visit_distance_measure [OF neighbors_of_adjacent])
qed

definition calculateDegreesOfSeparation ::
    "GraphNode list \<Rightarrow> GraphLink list \<Rightarrow> pubkey \<Rightarrow> GraphNode list" where
  "calculateDegreesOfSeparation ns ls referenceUser =
     (let adj = build_adjacency ns ls;
          distances = bfs_loop adj (Map.empty(referenceUser \<mapsto> 0), [(referenceUser, 0)])
      in map (\<lambda>node. node\<lparr>degreesFromRoot := distances (node_id node)\<rparr>) ns)"

subsection \<open>The whole query function\<close>

definition make_stats :: "GraphNode list \<Rightarrow> GraphLink list \<Rightarrow> Stats" where
  "make_stats ns ls =
     \<lparr>totalNodes = length ns,
      totalLinks = length ls,
      hubs = length (filter isHub ns),
      bidirectionalLinks = length (filter isBidirectional ls),
      clusters = card (set (filter (\<lambda>c. c \<noteq> None) (map cluster ns)))\<rparr>"

definition useWebOfTrust ::
    "fetcher \<Rightarrow> pubkey \<Rightarrow> nat \<Rightarrow> nat \<Rightarrow> pubkey \<Rightarrow> GraphData option" where
  "useWebOfTrust query startPubkey depth limit referenceUser =
     (case collect query startPubkey depth limit of
        None \<Rightarrow> None
      | Some s \<Rightarrow>
          let s1 = degrees s;
              ls = Map_values (linksMap s1);
              ns0 = detect_hubs (Map_values (nodesMap s1));
              ns1 = assignClusters ns0 ls;
              ns2 = (if truthy referenceUser
                     then calculateDegreesOfSeparation ns1 ls referenceUser
                     else ns1)
          in Some \<lparr>nodes = ns2, links = ls, stats = make_stats ns2 ls\<rparr>)"

section \<open>useSocialGraph\<close>

text \<open>
  \<^verbatim>\<open>parseContactList\<close>: the second field of every tag whose first field is \<^verbatim>\<open>p\<close>, and
  then \<^verbatim>\<open>.filter(Boolean)\<close>, which drops \<^verbatim>\<open>undefined\<close> and the empty string.
\<close>

definition parseContactList :: "event \<Rightarrow> string list" where
  "parseContactList ev =
     map the (filter truthy
       (map (\<lambda>tag. at_index tag 1) (filter (\<lambda>tag. at_index tag 0 = Some ''p'') (tags ev))))"

text \<open>
  The node and link of this hook. The label, the avatar and the colour of a node come from
  the profile records and the layout fields start at zero; they are left out. The profile
  query is kept, since its rejection rejects the run.
\<close>

record SocialNode =
  sn_id :: string
  isRoot :: bool
  radius :: nat

record SocialGraph =
  sg_nodes :: "SocialNode list"
  sg_links :: "(string \<times> string) list"

record traversal =
  followMap :: "(string \<times> string list) list"
  allPubkeys :: "string list"
  t_visited :: "string set"
  currentLevel :: "string list"
  nextLevel :: "string list"
  t_queries :: nat

definition first_event :: "event \<Rightarrow> traversal \<Rightarrow> traversal" where
  "first_event ev st =
     (let followed = parseContactList ev
      in st\<lparr>followMap := AList.update (pubkey ev) followed (followMap st),
            allPubkeys := fold Set_add followed (Set_add (pubkey ev) (allPubkeys st))\<rparr>)"

definition level_pk :: "nat \<Rightarrow> string \<Rightarrow> traversal \<Rightarrow> traversal" where
  "level_pk limit pk st =
     (if pk \<notin> t_visited st \<and> length (allPubkeys st) < limit
      then st\<lparr>t_visited := insert pk (t_visited st),
             nextLevel := nextLevel st @ [pk],
             allPubkeys := Set_add pk (allPubkeys st)\<rparr>
      else st)"

definition level_event :: "nat \<Rightarrow> event \<Rightarrow> traversal \<Rightarrow> traversal" where
  "level_event limit ev st =
     (let followed = parseContactList ev
      in fold (level_pk limit) followed
           (st\<lparr>followMap := AList.update (pubkey ev) followed (followMap st)\<rparr>))"

function level_loop :: "fetcher \<Rightarrow> nat \<Rightarrow> nat \<Rightarrow> nat \<Rightarrow> traversal \<Rightarrow> traversal option" where
  "level_loop query depth limit level st =
     (if level < depth \<and> currentLevel st \<noteq> []
      then (case query (t_queries st)
                   \<lparr>flt_kinds = [3], flt_authors = Some (map Some (currentLevel st)),
                    flt_limit = None\<rparr> of
              None \<Rightarrow> None
            | Some levelEvents \<Rightarrow>
                let st1 = fold (level_event limit) levelEvents
                            (st\<lparr>nextLevel := [], t_queries := Suc (t_queries st)\<rparr>)
                in level_loop query depth limit (level + 1) (st1\<lparr>currentLevel := nextLevel st1\<rparr>))
      else Some st)"
  by pat_completeness auto
termination
  by (relation "measure (\<lambda>(query, depth, limit, level, st). depth - level)") auto

definition social_node :: "pubkey \<Rightarrow> string \<Rightarrow> SocialNode" where
  "social_node rootPubkey pk =
     \<lparr>sn_id = pk, isRoot = (Some pk = rootPubkey),
      radius = (if Some pk = rootPubkey then 20 else 12)\<rparr>"

definition social_links :: "string list \<Rightarrow> (string \<times> string list) list \<Rightarrow> (string \<times> string) list" where
  "social_links pubkeyArray fm =
     concat (map (\<lambda>e. if fst e \<in> set pubkeyArray
                         then map (\<lambda>t. (fst e, t)) (filter (\<lambda>t. t \<in> set pubkeyArray) (snd e))
                         else []) fm)"

definition first_round :: "event list \<Rightarrow> traversal" where
  "first_round contactEvents =
     fold first_event contactEvents
       \<lparr>followMap = [], allPubkeys = [], t_visited = {}, currentLevel = [], nextLevel = [],
        t_queries = 1\<rparr>"

definition traverse :: "fetcher \<Rightarrow> pubkey \<Rightarrow> nat \<Rightarrow> nat \<Rightarrow> traversal \<Rightarrow> traversal option" where
  "traverse query rootPubkey depth limit st =
     (if truthy rootPubkey \<and> depth > 1
      then level_loop query depth limit 1
             (st\<lparr>t_visited := {template rootPubkey}, currentLevel := [template rootPubkey]\<rparr>)
      else Some st)"

definition build_graph :: "fetcher \<Rightarrow> pubkey \<Rightarrow> nat \<Rightarrow> traversal \<Rightarrow> SocialGraph option" where
  "build_graph query rootPubkey limit st =
     (let pubkeyArray = take limit (allPubkeys st)
      in (case query (t_queries st)
                 \<lparr>flt_kinds = [0], flt_authors = Some (map Some pubkeyArray), flt_limit = None\<rparr> of
            None \<Rightarrow> None
          | Some profileEvents \<Rightarrow>
              Some \<lparr>sg_nodes = map (social_node rootPubkey) pubkeyArray,
                    sg_links = social_links pubkeyArray (followMap st)\<rparr>))"

definition useSocialGraph :: "fetcher \<Rightarrow> pubkey \<Rightarrow> nat \<Rightarrow> nat \<Rightarrow> SocialGraph option" where
  "useSocialGraph query rootPubkey depth limit =
     (case query 0 (if truthy rootPubkey
                    then \<lparr>flt_kinds = [3], flt_authors = Some [rootPubkey], flt_limit = Some 1\<rparr>
                    else \<lparr>flt_kinds = [3], flt_authors = None, flt_limit = Some limit\<rparr>) of
        None \<Rightarrow> None
      | Some contactEvents \<Rightarrow>
          if contactEvents = [] then Some \<lparr>sg_nodes = [], sg_links = []\<rparr>
          else (case traverse query rootPubkey depth limit (first_round contactEvents) of
                  None \<Rightarrow> None
                | Some st \<Rightarrow> build_graph query rootPubkey limit st))"

section \<open>Fetchers for the examples\<close>

text \<open>
  A relay that holds a fixed list of records and answers a query with those whose author is
  asked for (all of them when the filter names no author), and a record in which an
  author follows a list of identities.
\<close>

definition relay :: "event list \<Rightarrow> fetcher" where
  "relay db n flt =
     Some (filter (\<lambda>ev. case flt_authors flt of None \<Rightarrow> True
                          | Some as \<Rightarrow> Some (pubkey ev) \<in> set as) db)"

definition follows :: "string \<Rightarrow> string list \<Rightarrow> event" where
  "follows a ps = \<lparr>pubkey = a, tags = map (\<lambda>p. [''p'', p]) ps\<rparr>"

text \<open>A relay that answers every query with the same records, whoever is asked for.\<close>

definition careless_relay :: "event list \<Rightarrow> fetcher" where
  "careless_relay db n flt = Some db"

text \<open>The recursive equations of the loops are unfolded only where a proof asks for them.\<close>

declare while_loop.simps [simp del] cluster_bfs.simps [simp del] bfs_loop.simps [simp del]
  level_loop.simps [simp del]

section \<open>The node budget\<close>

lemma distinct_Set_add: "distinct xs \<Longrightarrow> distinct (Set_add x xs)"
  by (simp add: Set_add_def)

lemma distinct_fold_Set_add: "distinct xs \<Longrightarrow> distinct (fold Set_add ys xs)"
  by (induction ys arbitrary: xs) (simp_all add: distinct_Set_add)

lemma first_event_distinct:
  "distinct (allPubkeys st) \<Longrightarrow> distinct (allPubkeys (first_event ev st))"
  by (simp add: first_event_def Let_def distinct_fold_Set_add distinct_Set_add)

lemma fold_first_event_distinct:
  "distinct (allPubkeys st) \<Longrightarrow> distinct (allPubkeys (fold first_event evs st))"
  by (induction evs arbitrary: st) (simp_all add: first_event_distinct)

lemma level_pk_distinct:
  "distinct (allPubkeys st) \<Longrightarrow> distinct (allPubkeys (level_pk limit pk st))"
  by (simp add: level_pk_def distinct_Set_add)

lemma fold_level_pk_distinct:
  "distinct (allPubkeys st) \<Longrightarrow> distinct (allPubkeys (fold (level_pk limit) pks st))"
  by (induction pks arbitrary: st) (simp_all add: level_pk_distinct)

lemma level_event_distinct:
  "distinct (allPubkeys st) \<Longrightarrow> distinct (allPubkeys (level_event limit ev st))"
  by (simp add: level_event_def Let_def fold_level_pk_distinct)

lemma fold_level_event_distinct:
  "distinct (allPubkeys st) \<Longrightarrow> distinct (allPubkeys (fold (level_event limit) evs st))"
  by (induction evs arbitrary: st) (simp_all add: level_event_distinct)

lemma level_loop_distinct:
  "level_loop q depth limit level st = Some st' \<Longrightarrow> distinct (allPubkeys st) \<Longrightarrow>
   distinct (allPubkeys st')"
proof (induction q depth limit level st rule: level_loop.induct)
  case (1 query depth limit level st)
  show ?case
  proof (cases "level < depth \<and> currentLevel st \<noteq> []")
    case False
    with "1.prems" show ?thesis by (auto simp: level_loop.simps [of query depth limit level st])
  next
    case True
    let ?flt = "\<lparr>flt_kinds = [3], flt_authors = Some (map Some (currentLevel st)),
                  flt_limit = None\<rparr>"
    from True "1.prems"(1) obtain evs where evs: "query (t_queries st) ?flt = Some evs"
      by (cases "query (t_queries st) ?flt")
        (auto simp: level_loop.simps [of query depth limit level st])
    let ?st1 = "fold (level_event limit) evs (st\<lparr>nextLevel := [], t_queries := Suc (t_queries st)\<rparr>)"
    have run: "level_loop query depth limit (level + 1) (?st1\<lparr>currentLevel := nextLevel ?st1\<rparr>) = Some st'"
      using "1.prems"(1) True evs
      by (simp add: Let_def level_loop.simps [of query depth limit level st])
    have "distinct (allPubkeys ?st1)"
      using "1.prems"(2) by (simp add: fold_level_event_distinct)
    then have "distinct (allPubkeys (?st1\<lparr>currentLevel := nextLevel ?st1\<rparr>))" by simp
    from "1.IH" [OF True evs refl run this] show ?thesis .
  qed
qed

lemma traverse_distinct:
  assumes "traverse q rootPubkey depth limit st = Some st'" and "distinct (allPubkeys st)"
  shows "distinct (allPubkeys st')"
proof (cases "truthy rootPubkey \<and> depth > 1")
  case True
  with assms(1) have "level_loop q depth limit 1
      (st\<lparr>t_visited := {template rootPubkey}, currentLevel := [template rootPubkey]\<rparr>) = Some st'"
    by (simp add: traverse_def)
  then show ?thesis by (rule level_loop_distinct) (use assms(2) in simp)
next
  case False
  with assms show ?thesis by (auto simp: traverse_def)
qed

lemma build_graph_nodes:
  "build_graph q rootPubkey limit st = Some g \<Longrightarrow>
   sg_nodes g = map (social_node rootPubkey) (take limit (allPubkeys st))"
  by (auto simp: build_graph_def Let_def split: option.splits)

lemma useSocialGraph_nodes:
  assumes "useSocialGraph q rootPubkey depth limit = Some g"
  shows "\<exists>pks. distinct pks \<and> sg_nodes g = map (social_node rootPubkey) (take limit pks)"
proof -
  let ?flt = "if truthy rootPubkey
              then \<lparr>flt_kinds = [3], flt_authors = Some [rootPubkey], flt_limit = Some 1\<rparr>
              else \<lparr>flt_kinds = [3], flt_authors = None, flt_limit = Some limit\<rparr>"
  from assms obtain evs where evs: "q 0 ?flt = Some evs"
    by (cases "q 0 ?flt") (auto simp: useSocialGraph_def)
  show ?thesis
  proof (cases "evs = []")
    case True
    with assms evs have "sg_nodes g = []" by (auto simp: useSocialGraph_def)
    then show ?thesis by (intro exI [of _ "[]"]) simp
  next
    case False
    have d0: "distinct (allPubkeys (first_round evs))"
      unfolding first_round_def by (rule fold_first_event_distinct) simp
    from assms evs False obtain st where
      st: "traverse q rootPubkey depth limit (first_round evs) = Some st"
      and g: "build_graph q rootPubkey limit st = Some g"
      by (cases "traverse q rootPubkey depth limit (first_round evs)")
        (auto simp: useSocialGraph_def)
    have "distinct (allPubkeys st)" by (rule traverse_distinct [OF st d0])
    with build_graph_nodes [OF g] show ?thesis by blast
  qed
qed

lemma useWebOfTrust_limit_unused:
  "truthy sp \<Longrightarrow> useWebOfTrust q sp d limit r = useWebOfTrust q sp d limit' r"
  by (simp add: useWebOfTrust_def collect_def seed_def)

text \<open>
  C1 does not hold of \<^verbatim>\<open>useWebOfTrust\<close>: with the start identity A, depth 1 and limit 1, one
  record in which A follows B and C gives three distinct nodes.
\<close>

theorem C1_counterexample:
  "map_option (map node_id \<circ> nodes)
     (useWebOfTrust (relay [follows ''A'' [''B'', ''C'']]) (Some ''A'') 1 1 None) =
   Some [Some ''A'', Some ''B'', Some ''C''] \<and> \<not> (3::nat) \<le> 1"
  by code_simp

text \<open>
  C1, amended: a snapshot of \<^verbatim>\<open>useSocialGraph\<close> has at most \<open>limit\<close> nodes, all of
  different identities, and during its level traversal a followed identity is never added
  once \<open>limit\<close> identities are known. \<^verbatim>\<open>useWebOfTrust\<close> has no node budget: its
  \<open>limit\<close> is only the size limit of the seed query of global mode, so that with a start
  identity the result does not depend on it.
\<close>

theorem C1_node_budget:
  "(useSocialGraph q rootPubkey depth limit = Some g \<longrightarrow>
      length (sg_nodes g) \<le> limit \<and> distinct (map sn_id (sg_nodes g))) \<and>
   (limit \<le> length (allPubkeys st) \<longrightarrow> level_pk limit pk st = st) \<and>
   (truthy sp \<longrightarrow> useWebOfTrust q' sp d limit r = useWebOfTrust q' sp d limit' r)"
proof (intro conjI impI)
  assume run: "useSocialGraph q rootPubkey depth limit = Some g"
  then obtain pks where pks: "distinct pks" "sg_nodes g = map (social_node rootPubkey) (take limit pks)"
    using useSocialGraph_nodes by blast
  show "length (sg_nodes g) \<le> limit" by (simp add: pks(2))
  have "map sn_id (sg_nodes g) = take limit pks"
    by (simp add: pks(2) social_node_def comp_def)
  with pks(1) show "distinct (map sn_id (sg_nodes g))" by simp
next
  assume "limit \<le> length (allPubkeys st)"
  then show "level_pk limit pk st = st" by (simp add: level_pk_def)
next
  assume "truthy sp"
  then show "useWebOfTrust q' sp d limit r = useWebOfTrust q' sp d limit' r"
    by (rule useWebOfTrust_limit_unused)
qed

theorem C1_node_budget_witness:
  "(useSocialGraph (relay [follows ''A'' [''B'', ''C''], follows ''B'' [''D'']]) (Some ''A'') 2 2 =
      Some \<lparr>sg_nodes = [\<lparr>sn_id = ''A'', isRoot = True, radius = 20\<rparr>,
                         \<lparr>sn_id = ''B'', isRoot = False, radius = 12\<rparr>],
            sg_links = [(''A'', ''B'')]\<rparr> \<and>
    length [\<lparr>sn_id = ''A'', isRoot = True, radius = 20\<rparr>,
            \<lparr>sn_id = ''B'', isRoot = False, radius = 12\<rparr>] \<le> (2::nat)) \<and>
   ((2::nat) \<le> length [''A'', ''B'', ''C''] \<and>
    level_pk 2 ''D''
      \<lparr>followMap = [], allPubkeys = [''A'', ''B'', ''C''], t_visited = {''A''},
       currentLevel = [''A''], nextLevel = [], t_queries = 2\<rparr> =
      \<lparr>followMap = [], allPubkeys = [''A'', ''B'', ''C''], t_visited = {''A''},
       currentLevel = [''A''], nextLevel = [], t_queries = 2\<rparr>) \<and>
   (truthy (Some ''A'') \<and>
    useWebOfTrust (relay [follows ''A'' [''B'', ''C'']]) (Some ''A'') 1 1 None =
    useWebOfTrust (relay [follows ''A'' [''B'', ''C'']]) (Some ''A'') 1 100 None)"
proof -
  let ?g = "\<lparr>sg_nodes = [\<lparr>sn_id = ''A'', isRoot = True, radius = 20\<rparr>,
                         \<lparr>sn_id = ''B'', isRoot = False, radius = 12\<rparr>],
            sg_links = [(''A'', ''B'')]\<rparr>"
  let ?st = "\<lparr>followMap = [], allPubkeys = [''A'', ''B'', ''C''], t_visited = {''A''},
              currentLevel = [''A''], nextLevel = [], t_queries = 2\<rparr>"
  have run: "useSocialGraph (relay [follows ''A'' [''B'', ''C''], follows ''B'' [''D'']])
               (Some ''A'') 2 2 = Some ?g"
    by code_simp
  have full: "(2::nat) \<le> length (allPubkeys ?st)" by simp
  have start: "truthy (Some ''A'')" by simp
  note budget = C1_node_budget [where q = "relay [follows ''A'' [''B'', ''C''], follows ''B'' [''D'']]"
      and rootPubkey = "Some ''A''" and depth = 2 and limit = 2 and g = ?g and st = ?st
      and pk = "''D''" and sp = "Some ''A''" and q' = "relay [follows ''A'' [''B'', ''C'']]"
      and d = 1 and limit' = 100 and r = None]
  from budget run have "length (sg_nodes ?g) \<le> 2" by blast
  moreover from budget full have "level_pk 2 ''D'' ?st = ?st" by blast
  moreover from budget start have
    "useWebOfTrust (relay [follows ''A'' [''B'', ''C'']]) (Some ''A'') 1 2 None =
     useWebOfTrust (relay [follows ''A'' [''B'', ''C'']]) (Some ''A'') 1 100 None" by blast
  moreover have
    "useWebOfTrust (relay [follows ''A'' [''B'', ''C'']]) (Some ''A'') 1 1 None =
     useWebOfTrust (relay [follows ''A'' [''B'', ''C'']]) (Some ''A'') 1 2 None"
    by (simp add: useWebOfTrust_limit_unused)
  ultimately show ?thesis using run by simp
qed

section \<open>Levels of a batch\<close>

text \<open>
  Fifty-one records of different authors, the first of which follows X: the seed records of
  a run in global mode.
\<close>

definition fifty_one_seeds :: "event list" where
  "fifty_one_seeds =
     map (\<lambda>n. follows (replicate (Suc n) CHR ''s'') (if n = 0 then [''X''] else [])) [0..<51]"

text \<open>
  C3 fails on the code. In global mode with depth 2 and the fifty-one seed records, the
  first iteration takes fifty seeds and queues X at level 1 behind the last seed; the
  batch of the second iteration holds that seed, of level 0, and X, of level 1. The source
  takes the level of the first entry for the whole batch.
\<close>

theorem C3_mixed_batch:
  "map_option (map snd \<circ> next_batch)
     (Option.bind (seed (relay fifty_one_seeds) None 100) (loop_body (relay fifty_one_seeds) 2)) =
   Some [0, 1]"
  by code_simp

section \<open>The contact-list parser\<close>

lemma followed_values:
  "filter truthy (followedPubkeys ev) = map Some (parseContactList ev)"
proof -
  have "map Some (map the (filter truthy xs)) = filter truthy xs" for xs :: "pubkey list"
    by (induction xs) (auto elim: truthy.elims)
  then show ?thesis by (simp add: followedPubkeys_def parseContactList_def)
qed

text \<open>
  C9 holds of \<^verbatim>\<open>parseContactList\<close> and fails on the extraction written out in
  \<^verbatim>\<open>useWebOfTrust\<close>, which has no \<^verbatim>\<open>.filter(Boolean)\<close>: for a record of A whose only tag is
  \<^verbatim>\<open>["p"]\<close> the parser gives the empty sequence, the collector's extraction gives
  \<^verbatim>\<open>[undefined]\<close>, and the snapshot gets a node whose identity is \<^verbatim>\<open>undefined\<close>.
\<close>

theorem C9_missing_value_kept:
  "parseContactList \<lparr>pubkey = ''A'', tags = [[''p'']]\<rparr> = [] \<and>
   followedPubkeys \<lparr>pubkey = ''A'', tags = [[''p'']]\<rparr> = [None] \<and>
   map_option (map node_id \<circ> nodes)
     (useWebOfTrust (relay [\<lparr>pubkey = ''A'', tags = [[''p'']]\<rparr>]) (Some ''A'') 1 100 None) =
   Some [Some ''A'', None]"
  by code_simp

section \<open>Invariants of the collector\<close>

lemma update_absent: "k \<notin> fst ` set al \<Longrightarrow> AList.update k v al = al @ [(k, v)]"
  by (induction al) auto

lemma update_cases: "e \<in> set (AList.update k v al) \<Longrightarrow> e = (k, v) \<or> e \<in> set al"
  by (induction al) (auto split: if_splits)

lemma map_entry_cases:
  "e' \<in> set (AList.map_entry k f al) \<Longrightarrow>
   \<exists>e\<in>set al. fst e' = fst e \<and> (snd e' = snd e \<or> (fst e = k \<and> snd e' = f (snd e)))"
  by (induction al) (auto split: if_splits)

lemma while_loop_rule:
  assumes "while_loop q d s = Some t" and "P s"
    and "\<And>s s'. P s \<Longrightarrow> toProcess s \<noteq> [] \<Longrightarrow> loop_body q d s = Some s' \<Longrightarrow> P s'"
  shows "P t \<and> toProcess t = []"
  using assms
proof (induction q d s rule: while_loop.induct)
  case (1 query depth s)
  show ?case
  proof (cases "toProcess s = []")
    case True
    with "1.prems" show ?thesis by (simp add: while_loop.simps)
  next
    case False
    with "1.prems"(1) obtain s' where s': "loop_body query depth s = Some s'"
      and run: "while_loop query depth s' = Some t"
      by (cases "loop_body query depth s") (auto simp: while_loop.simps [of query depth s])
    have "P s'" using "1.prems"(3) [OF "1.prems"(2) False s'] .
    then show ?thesis using "1.IH" [OF False s' run] "1.prems"(3) by blast
  qed
qed


definition graph_ok :: "collector \<Rightarrow> bool" where
  "graph_ok s \<longleftrightarrow>
     distinct (map fst (nodesMap s)) \<and> distinct (map fst (linksMap s)) \<and>
     (\<forall>e\<in>set (nodesMap s). node_id (snd e) = fst e \<and> 3 \<le> val (snd e) \<and> val (snd e) \<le> 20) \<and>
     (\<forall>e\<in>set (linksMap s). fst e = linkId (source (snd e)) (target (snd e)) \<and>
        target (snd e) \<in> fst ` set (nodesMap s) \<and> \<not> isBidirectional (snd e))"

lemma add_followed_graph_ok:
  assumes "graph_ok s"
  shows "graph_ok (add_followed d L a f s)"
proof -
  let ?lid = "linkId (Some a) f"
  let ?link = "\<lparr>source = Some a, target = f, isBidirectional = False\<rparr>"
  let ?lm = "if \<not> Map_has (linksMap s) ?lid then linksMap s @ [(?lid, ?link)] else linksMap s"
  let ?bump = "\<lambda>node. node\<lparr>val := min (val node + 1) 20\<rparr>"
  let ?nm = "if \<not> Map_has (nodesMap s) f then nodesMap s @ [(f, new_node f 3)]
             else AList.map_entry f ?bump (nodesMap s)"
  have lm: "linksMap (add_followed d L a f s) = ?lm"
    by (simp add: add_followed_def Let_def update_absent)
  have nm: "nodesMap (add_followed d L a f s) = ?nm"
    by (simp add: add_followed_def Let_def update_absent)
  have keys: "fst ` set ?nm = insert f (fst ` set (nodesMap s))"
    by (auto simp: AList.dom_map_entry)
  have d1: "distinct (map fst ?nm)"
    using assms by (auto simp: graph_ok_def AList.distinct_map_entry)
  have d2: "distinct (map fst ?lm)"
    using assms by (auto simp: graph_ok_def)
  have n: "\<forall>e\<in>set ?nm. node_id (snd e) = fst e \<and> 3 \<le> val (snd e) \<and> val (snd e) \<le> 20"
  proof
    fix e assume e: "e \<in> set ?nm"
    show "node_id (snd e) = fst e \<and> 3 \<le> val (snd e) \<and> val (snd e) \<le> 20"
    proof (cases "Map_has (nodesMap s) f")
      case False
      with e assms show ?thesis by (auto simp: graph_ok_def new_node_def)
    next
      case True
      with e have "e \<in> set (AList.map_entry f ?bump (nodesMap s))" by simp
      from map_entry_cases [OF this] obtain e0 where
        "e0 \<in> set (nodesMap s)" "fst e = fst e0"
        "snd e = snd e0 \<or> snd e = ?bump (snd e0)" by blast
      with assms show ?thesis by (auto simp: graph_ok_def)
    qed
  qed
  have l: "\<forall>e\<in>set ?lm. fst e = linkId (source (snd e)) (target (snd e)) \<and>
             target (snd e) \<in> fst ` set ?nm \<and> \<not> isBidirectional (snd e)"
    unfolding keys using assms by (auto simp: graph_ok_def)
  show ?thesis
    unfolding graph_ok_def lm nm using d1 d2 n l by blast
qed


lemma graph_ok_cong:
  "nodesMap s' = nodesMap s \<Longrightarrow> linksMap s' = linksMap s \<Longrightarrow> graph_ok s' = graph_ok s"
  by (simp add: graph_ok_def)

lemma fold_add_followed_graph_ok:
  "graph_ok s \<Longrightarrow> graph_ok (fold (add_followed d L a) fs s)"
  by (induction fs arbitrary: s) (simp_all add: add_followed_graph_ok)

lemma process_event_graph_ok: "graph_ok s \<Longrightarrow> graph_ok (process_event d L ev s)"
  unfolding process_event_def
  by (rule fold_add_followed_graph_ok) (simp add: graph_ok_def)

lemma fold_process_event_graph_ok:
  "graph_ok s \<Longrightarrow> graph_ok (fold (process_event d L) evs s)"
  by (induction evs arbitrary: s) (simp_all add: process_event_graph_ok)

lemma loop_body_skip:
  "d \<le> batch_level (next_batch s) \<Longrightarrow>
   loop_body q d s =
     Some (s\<lparr>toProcess := drop 50 (toProcess s),
             processed := processed s \<union> set (map fst (next_batch s))\<rparr>)"
  by (simp add: loop_body_def Let_def)

lemma loop_body_fetch:
  "\<not> d \<le> batch_level (next_batch s) \<Longrightarrow>
   loop_body q d s =
     (case q (queries s) \<lparr>flt_kinds = [3], flt_authors = Some (map fst (next_batch s)),
                           flt_limit = Some 1\<rparr> of
        None \<Rightarrow> None
      | Some events \<Rightarrow>
          Some (fold (process_event d (batch_level (next_batch s))) events
                 (s\<lparr>toProcess := drop 50 (toProcess s), queries := Suc (queries s)\<rparr>)))"
  by (simp add: loop_body_def Let_def cong: option.case_cong)

lemma loop_body_graph_ok:
  assumes "graph_ok s" and "loop_body q d s = Some s'"
  shows "graph_ok s'"
proof (cases "d \<le> batch_level (next_batch s)")
  case True
  from assms(2) have "s' = s\<lparr>toProcess := drop 50 (toProcess s),
             processed := processed s \<union> set (map fst (next_batch s))\<rparr>"
    unfolding loop_body_skip [OF True] by simp
  with assms(1) show ?thesis by (simp add: graph_ok_def)
next
  case False
  let ?flt = "\<lparr>flt_kinds = [3], flt_authors = Some (map fst (next_batch s)), flt_limit = Some 1\<rparr>"
  from assms(2) obtain evs where
    s': "s' = fold (process_event d (batch_level (next_batch s))) evs
            (s\<lparr>toProcess := drop 50 (toProcess s), queries := Suc (queries s)\<rparr>)"
    unfolding loop_body_fetch [OF False] by (cases "q (queries s) ?flt") auto
  have "graph_ok (s\<lparr>toProcess := drop 50 (toProcess s), queries := Suc (queries s)\<rparr>)"
    using assms(1) by (simp add: graph_ok_def)
  then show ?thesis unfolding s' by (rule fold_process_event_graph_ok)
qed

lemma add_seed_nodes:
  "nodesMap (add_seed ev s) = AList.update (Some (pubkey ev)) (new_node (Some (pubkey ev)) 5) (nodesMap s)
   \<or> nodesMap (add_seed ev s) = nodesMap s"
  by (simp add: add_seed_def)

lemma add_seed_graph_ok:
  assumes "graph_ok s" and "linksMap s = []"
  shows "graph_ok (add_seed ev s) \<and> linksMap (add_seed ev s) = []"
proof -
  let ?k = "Some (pubkey ev)"
  have "\<forall>e\<in>set (AList.update ?k (new_node ?k 5) (nodesMap s)).
          node_id (snd e) = fst e \<and> 3 \<le> val (snd e) \<and> val (snd e) \<le> 20"
  proof
    fix e assume "e \<in> set (AList.update ?k (new_node ?k 5) (nodesMap s))"
    then have "e = (?k, new_node ?k 5) \<or> e \<in> set (nodesMap s)"
      by (rule update_cases)
    with assms(1) show "node_id (snd e) = fst e \<and> 3 \<le> val (snd e) \<and> val (snd e) \<le> 20"
      by (auto simp: graph_ok_def new_node_def)
  qed
  with assms show ?thesis
    by (auto simp: add_seed_def graph_ok_def AList.distinct_update)
qed

lemma fold_add_seed_graph_ok:
  "graph_ok s \<Longrightarrow> linksMap s = [] \<Longrightarrow>
   graph_ok (fold add_seed evs s) \<and> linksMap (fold add_seed evs s) = []"
  by (induction evs arbitrary: s) (simp_all add: add_seed_graph_ok)

lemma seed_graph_ok: "seed q sp limit = Some s \<Longrightarrow> graph_ok s"
proof (cases "truthy sp")
  case True
  assume "seed q sp limit = Some s"
  with True show ?thesis
    by (auto simp: seed_def graph_ok_def empty_collector_def new_node_def)
next
  case False
  assume "seed q sp limit = Some s"
  with False obtain evs where s: "s = fold add_seed evs (empty_collector\<lparr>queries := 1\<rparr>)"
    by (auto simp: seed_def split: option.splits)
  have "graph_ok (empty_collector\<lparr>queries := 1\<rparr>)" "linksMap (empty_collector\<lparr>queries := 1\<rparr>) = []"
    by (simp_all add: graph_ok_def empty_collector_def)
  then show ?thesis unfolding s using fold_add_seed_graph_ok by blast
qed

lemma collect_graph_ok:
  assumes "collect q sp d limit = Some t"
  shows "graph_ok t"
proof -
  from assms obtain s where s: "seed q sp limit = Some s" and run: "while_loop q d s = Some t"
    by (auto simp: collect_def split: option.splits)
  from while_loop_rule [where P = graph_ok, OF run seed_graph_ok [OF s]] loop_body_graph_ok
  show ?thesis by blast
qed


section \<open>What the analytics leave unchanged\<close>

lemma map_entry_proj:
  "(\<And>x. p (f x) = p x) \<Longrightarrow>
   map (\<lambda>e. (fst e, p (snd e))) (AList.map_entry k f al) = map (\<lambda>e. (fst e, p (snd e))) al"
  by (induction al) auto

lemma degree_link_nodes:
  "map (\<lambda>e. (fst e, node_id (snd e), val (snd e))) (nodesMap (degree_link e s)) =
   map (\<lambda>e. (fst e, node_id (snd e), val (snd e))) (nodesMap s)"
  by (simp add: degree_link_def Let_def map_entry_proj [where p = "\<lambda>n. (node_id n, val n)"])

lemma fold_degree_link_nodes:
  "map (\<lambda>e. (fst e, node_id (snd e), val (snd e))) (nodesMap (fold degree_link es s)) =
   map (\<lambda>e. (fst e, node_id (snd e), val (snd e))) (nodesMap s)"
  by (induction es arbitrary: s) (simp_all add: degree_link_nodes)

lemma degrees_nodes:
  "map (\<lambda>e. (fst e, node_id (snd e), val (snd e))) (nodesMap (degrees s)) =
   map (\<lambda>e. (fst e, node_id (snd e), val (snd e))) (nodesMap s)"
  by (simp add: degrees_def fold_degree_link_nodes)

lemma set_cluster_frame:
  assumes "\<And>n c. p (n\<lparr>cluster := c\<rparr>) = p n"
  shows "map p (c_nodes (set_cluster i st)) = map p (c_nodes st)"
proof (cases "i < length (c_nodes st)")
  case True
  then show ?thesis
    by (simp add: set_cluster_def map_update assms list_update_same_conv)
next
  case False
  then show ?thesis by (simp add: set_cluster_def list_update_beyond)
qed

lemma visit_neighbor_frame:
  assumes "\<And>n c. p (n\<lparr>cluster := c\<rparr>) = p n"
  shows "map p (c_nodes (visit_neighbor k st)) = map p (c_nodes st)"
  using set_cluster_frame [where p = p, OF assms]
  by (simp add: visit_neighbor_def split: option.splits)

lemma fold_visit_neighbor_frame:
  assumes "\<And>n c. p (n\<lparr>cluster := c\<rparr>) = p n"
  shows "map p (c_nodes (fold visit_neighbor ks st)) = map p (c_nodes st)"
  by (induction ks arbitrary: st) (simp_all add: visit_neighbor_frame [where p = p, OF assms])

lemma for_batch_frame:
  assumes "\<And>n c. p (n\<lparr>cluster := c\<rparr>) = p n"
  shows "map p (c_nodes (for_batch adj n st)) = map p (c_nodes st)"
  by (induction n arbitrary: st)
    (simp_all add: Let_def fold_visit_neighbor_frame [where p = p, OF assms])

lemma cluster_bfs_frame:
  assumes "\<And>n c. p (n\<lparr>cluster := c\<rparr>) = p n"
  shows "map p (c_nodes (cluster_bfs adj depth st)) = map p (c_nodes st)"
proof (induction adj depth st rule: cluster_bfs.induct)
  case (1 adj depth st)
  show ?case
  proof (cases "c_queue st \<noteq> [] \<and> depth < 2")
    case True
    then have "cluster_bfs adj depth st =
        cluster_bfs adj (depth + 1) (for_batch adj (length (c_queue st)) st)"
      by (subst cluster_bfs.simps) simp
    with "1.IH" [OF True] show ?thesis
      by (simp add: for_batch_frame [where p = p, OF assms])
  next
    case False
    then have "cluster_bfs adj depth st = st" by (subst cluster_bfs.simps) auto
    then show ?thesis by simp
  qed
qed

lemma cluster_node_frame:
  assumes "\<And>n c. p (n\<lparr>cluster := c\<rparr>) = p n"
  shows "map p (c_nodes (cluster_node adj i st)) = map p (c_nodes st)"
  by (simp add: cluster_node_def Let_def cluster_bfs_frame [where p = p, OF assms]
      set_cluster_frame [where p = p, OF assms])

lemma fold_cluster_node_frame:
  assumes "\<And>n c. p (n\<lparr>cluster := c\<rparr>) = p n"
  shows "map p (c_nodes (fold (cluster_node adj) is st)) = map p (c_nodes st)"
  by (induction "is" arbitrary: st) (simp_all add: cluster_node_frame [where p = p, OF assms])

lemma assignClusters_frame:
  assumes "\<And>n c. p (n\<lparr>cluster := c\<rparr>) = p n"
  shows "map p (assignClusters ns ls) = map p ns"
  by (simp add: assignClusters_def assignClusters_run_def
      fold_cluster_node_frame [where p = p, OF assms])

lemma calculateDegreesOfSeparation_frame:
  assumes "\<And>n c. p (n\<lparr>degreesFromRoot := c\<rparr>) = p n"
  shows "map p (calculateDegreesOfSeparation ns ls r) = map p ns"
  by (simp add: calculateDegreesOfSeparation_def Let_def assms)


section \<open>The snapshot in terms of the collected maps\<close>

lemma useWebOfTrust_unfold:
  assumes "useWebOfTrust q sp d limit r = Some g"
  obtains t where "collect q sp d limit = Some t"
    and "links g = Map_values (linksMap (degrees t))"
    and "nodes g =
          (if truthy r
           then calculateDegreesOfSeparation
                  (assignClusters (detect_hubs (Map_values (nodesMap (degrees t)))) (links g))
                  (links g) r
           else assignClusters (detect_hubs (Map_values (nodesMap (degrees t)))) (links g))"
    and "stats g = make_stats (nodes g) (links g)"
  using assms by (auto simp: useWebOfTrust_def Let_def split: option.splits)

lemma snapshot_nodes_frame:
  assumes "useWebOfTrust q sp d limit r = Some g"
    and "collect q sp d limit = Some t"
    and "\<And>n c. p (n\<lparr>cluster := c\<rparr>) = p n"
    and "\<And>n c. p (n\<lparr>degreesFromRoot := c\<rparr>) = p n"
  shows "map p (nodes g) = map p (detect_hubs (Map_values (nodesMap (degrees t))))"
proof -
  from assms(1) obtain t' where t': "collect q sp d limit = Some t'"
    and ns: "nodes g =
          (if truthy r
           then calculateDegreesOfSeparation
                  (assignClusters (detect_hubs (Map_values (nodesMap (degrees t')))) (links g))
                  (links g) r
           else assignClusters (detect_hubs (Map_values (nodesMap (degrees t')))) (links g))"
    by (rule useWebOfTrust_unfold)
  from t' assms(2) have "t' = t" by simp
  with ns show ?thesis
    by (simp add: calculateDegreesOfSeparation_frame [where p = p, OF assms(4)]
        assignClusters_frame [where p = p, OF assms(3)])
qed

section \<open>Importance\<close>

lemma update_hub_val:
  assumes "3 \<le> val n" and "val n \<le> 20"
  shows "3 \<le> val (update_hub h n) \<and> val (update_hub h n) \<le> 30 \<and>
         (\<not> isHub (update_hub h n) \<longrightarrow> val (update_hub h n) \<le> 20)"
  using assms by (auto simp: update_hub_def Let_def)

lemma collect_val:
  assumes "collect q sp d limit = Some t" and "m \<in> set (Map_values (nodesMap (degrees t)))"
  shows "3 \<le> val m \<and> val m \<le> 20"
proof -
  from assms(2) obtain e where e: "e \<in> set (nodesMap (degrees t))" "m = snd e" by auto
  then have "(fst e, node_id m, val m) \<in>
      set (map (\<lambda>e. (fst e, node_id (snd e), val (snd e))) (nodesMap (degrees t)))"
    by force
  then have "(fst e, node_id m, val m) \<in>
      set (map (\<lambda>e. (fst e, node_id (snd e), val (snd e))) (nodesMap t))"
    by (simp only: degrees_nodes)
  then obtain e0 where "e0 \<in> set (nodesMap t)" "val (snd e0) = val m" by auto
  with collect_graph_ok [OF assms(1)] show ?thesis by (auto simp: graph_ok_def)
qed

definition thirty_names :: "string list" where
  "thirty_names = map (\<lambda>n. replicate (Suc n) CHR ''s'') [0..<30]"

text \<open>
  C2 does not hold: a start identity that follows thirty others has total degree 30, is a
  hub, and gets the importance \<open>max 10 (15 + min (30 / 5) 15) = 21\<close>.
\<close>

theorem C2_counterexample:
  "map_option (map val \<circ> take 1 \<circ> nodes)
     (useWebOfTrust (relay [follows ''A'' thirty_names]) (Some ''A'') 1 100 None) = Some [21]
   \<and> \<not> (21::real) \<le> 20"
  by code_simp

lemma update_hub_degree:
  "inDegree (update_hub h n) = inDegree n \<and> outDegree (update_hub h n) = outDegree n"
  by (simp add: update_hub_def Let_def)

lemma update_hub_formula:
  assumes "val n \<le> 20"
  shows "(isHub (update_hub h n) \<longrightarrow>
            10 \<le> inDegree n + outDegree n \<and>
            val (update_hub h n) = max (val n) (15 + min (real (inDegree n + outDegree n) / 5) 15) \<and>
            val (update_hub h n) \<le> max 20 (15 + min (real (inDegree n + outDegree n) / 5) 15)) \<and>
         (\<not> isHub (update_hub h n) \<longrightarrow>
            val (update_hub h n) = max (val n) (3 + min (real (inDegree n + outDegree n) / 2) 7))"
  using assms by (auto simp: update_hub_def Let_def)

text \<open>
  C2, amended: during collection the importance of every node stays between 3 and 20; in
  the snapshot after analytics it lies between 3 and 30, and between 3 and 20 for every node
  that is not a hub. A hub has total degree at least 10 and its importance is at least
  \<open>15 + min (totalDegree / 5) 15\<close> and at most the larger of 20 and that value, so it
  exceeds 20 as soon as the total degree exceeds 25, and only then; a node that is not a
  hub has importance at least \<open>3 + min (totalDegree / 2) 7\<close>.
\<close>

theorem C2_importance_bounds:
  "(collect q sp d limit = Some t \<longrightarrow>
      (\<forall>e\<in>set (nodesMap t). 3 \<le> val (snd e) \<and> val (snd e) \<le> 20)) \<and>
   (useWebOfTrust q sp d limit r = Some g \<longrightarrow>
      (\<forall>n\<in>set (nodes g). 3 \<le> val n \<and> val n \<le> 30 \<and> (\<not> isHub n \<longrightarrow> val n \<le> 20) \<and>
         (isHub n \<longrightarrow>
            10 \<le> inDegree n + outDegree n \<and>
            15 + min (real (inDegree n + outDegree n) / 5) 15 \<le> val n \<and>
            val n \<le> max 20 (15 + min (real (inDegree n + outDegree n) / 5) 15)) \<and>
         (isHub n \<longrightarrow> (20 < val n \<longleftrightarrow> 25 < inDegree n + outDegree n)) \<and>
         (\<not> isHub n \<longrightarrow> 3 + min (real (inDegree n + outDegree n) / 2) 7 \<le> val n)))"
proof (intro conjI; intro impI ballI)
  fix e assume "collect q sp d limit = Some t" "e \<in> set (nodesMap t)"
  with collect_graph_ok show "3 \<le> val (snd e) \<and> val (snd e) \<le> 20"
    by (auto simp: graph_ok_def)
next
  fix n assume g: "useWebOfTrust q sp d limit r = Some g" and n: "n \<in> set (nodes g)"
  from g obtain t' where t': "collect q sp d limit = Some t'"
    by (rule useWebOfTrust_unfold)
  let ?N = "Map_values (nodesMap (degrees t'))"
  let ?p = "\<lambda>n. (val n, isHub n, inDegree n, outDegree n)"
  have "map ?p (nodes g) = map ?p (detect_hubs ?N)"
    by (rule snapshot_nodes_frame [OF g t']) simp_all
  moreover from n have "?p n \<in> set (map ?p (nodes g))"
    by force
  ultimately have "?p n \<in> set (map ?p (detect_hubs ?N))"
    by simp
  then obtain h m where m: "m \<in> set ?N" "val n = val (update_hub h m)"
      "isHub n = isHub (update_hub h m)" "inDegree n = inDegree (update_hub h m)"
      "outDegree n = outDegree (update_hub h m)"
    by (auto simp: detect_hubs_def Let_def)
  from collect_val [OF t' m(1)] have v: "3 \<le> val m" "val m \<le> 20" by simp_all
  from m(4,5) have deg: "inDegree n = inDegree m" "outDegree n = outDegree m"
    by (simp_all add: update_hub_degree)
  define k where "k = inDegree m + outDegree m"
  have bounds: "3 \<le> val n \<and> val n \<le> 30 \<and> (\<not> isHub n \<longrightarrow> val n \<le> 20)"
    using update_hub_val [OF v, of h] m(2,3) by simp
  have hub: "isHub n \<longrightarrow> 10 \<le> k \<and> val n = max (val m) (15 + min (real k / 5) 15) \<and>
      val n \<le> max 20 (15 + min (real k / 5) 15)"
    and plain: "\<not> isHub n \<longrightarrow> val n = max (val m) (3 + min (real k / 2) 7)"
    using update_hub_formula [OF v(2), of h]
    unfolding m(2,3) [symmetric] k_def [symmetric] by blast+
  have exceed: "isHub n \<longrightarrow> (20 < val n \<longleftrightarrow> 25 < k)"
  proof
    assume "isHub n"
    with hub have eq: "val n = max (val m) (15 + min (real k / 5) 15)" by simp
    show "20 < val n \<longleftrightarrow> 25 < k"
    proof
      assume "20 < val n"
      with eq v(2) have "20 < 15 + min (real k / 5) 15" by simp
      then have "5 < real k / 5" by simp
      then show "25 < k" by simp
    next
      assume "25 < k"
      then have "26 \<le> real k" by simp
      then have "5 < min (real k / 5) 15" by simp
      with eq show "20 < val n" by simp
    qed
  qed
  from hub have lower: "isHub n \<longrightarrow> 15 + min (real k / 5) 15 \<le> val n" by simp
  from plain have lower': "\<not> isHub n \<longrightarrow> 3 + min (real k / 2) 7 \<le> val n" by simp
  from bounds hub lower exceed lower'
  show "3 \<le> val n \<and> val n \<le> 30 \<and> (\<not> isHub n \<longrightarrow> val n \<le> 20) \<and>
         (isHub n \<longrightarrow>
            10 \<le> inDegree n + outDegree n \<and>
            15 + min (real (inDegree n + outDegree n) / 5) 15 \<le> val n \<and>
            val n \<le> max 20 (15 + min (real (inDegree n + outDegree n) / 5) 15)) \<and>
         (isHub n \<longrightarrow> (20 < val n \<longleftrightarrow> 25 < inDegree n + outDegree n)) \<and>
         (\<not> isHub n \<longrightarrow> 3 + min (real (inDegree n + outDegree n) / 2) 7 \<le> val n)"
    unfolding deg k_def by blast
qed


text \<open>The run of scenario C: the start identity A, depth 1, and one record in which A follows A.\<close>

definition self_loop_collected :: collector where
  "self_loop_collected =
     \<lparr>nodesMap = [(Some ''A'', \<lparr>node_id = Some ''A'', val = 11, inDegree = 0, outDegree = 0,
                     isHub = False, cluster = None, degreesFromRoot = None\<rparr>)],
      linksMap = [(''A->A'', \<lparr>source = Some ''A'', target = Some ''A'', isBidirectional = False\<rparr>)],
      processed = {Some ''A''}, toProcess = [], queries = 1\<rparr>"

definition self_loop_snapshot :: GraphData where
  "self_loop_snapshot =
     \<lparr>nodes = [\<lparr>node_id = Some ''A'', val = 11, inDegree = 1, outDegree = 1, isHub = False,
                 cluster = Some 0, degreesFromRoot = None\<rparr>],
      links = [\<lparr>source = Some ''A'', target = Some ''A'', isBidirectional = True\<rparr>],
      stats = \<lparr>totalNodes = 1, totalLinks = 1, hubs = 0, bidirectionalLinks = 1, clusters = 1\<rparr>\<rparr>"

lemma self_loop_collect:
  "collect (relay [follows ''A'' [''A'']]) (Some ''A'') 1 100 = Some self_loop_collected"
  by code_simp

lemma self_loop_run:
  "useWebOfTrust (relay [follows ''A'' [''A'']]) (Some ''A'') 1 100 None = Some self_loop_snapshot"
  by code_simp

text \<open>
  The run of the start identity A, depth 1, and one record in which A follows thirty
  others: A is a hub of total degree 30 and importance 21, every other node has total
  degree 1 and importance 3.5.
\<close>

definition star_collected :: collector where
  "star_collected =
     \<lparr>nodesMap =
        (Some ''A'', \<lparr>node_id = Some ''A'', val = 10, inDegree = 0, outDegree = 0,
                      isHub = False, cluster = None, degreesFromRoot = None\<rparr>) #
        map (\<lambda>s. (Some s, \<lparr>node_id = Some s, val = 3, inDegree = 0, outDegree = 0,
                             isHub = False, cluster = None, degreesFromRoot = None\<rparr>))
          thirty_names,
      linksMap =
        map (\<lambda>s. (''A->'' @ s, \<lparr>source = Some ''A'', target = Some s, isBidirectional = False\<rparr>))
          thirty_names,
      processed = {Some ''A''}, toProcess = [], queries = 1\<rparr>"

definition star_snapshot :: GraphData where
  "star_snapshot =
     \<lparr>nodes =
        \<lparr>node_id = Some ''A'', val = 21, inDegree = 0, outDegree = 30, isHub = True,
          cluster = Some 0, degreesFromRoot = None\<rparr> #
        map (\<lambda>s. \<lparr>node_id = Some s, val = 7 / 2, inDegree = 1, outDegree = 0, isHub = False,
                   cluster = Some 0, degreesFromRoot = None\<rparr>) thirty_names,
      links =
        map (\<lambda>s. \<lparr>source = Some ''A'', target = Some s, isBidirectional = False\<rparr>) thirty_names,
      stats = \<lparr>totalNodes = 31, totalLinks = 30, hubs = 1, bidirectionalLinks = 0, clusters = 1\<rparr>\<rparr>"

lemma star_collect:
  "collect (relay [follows ''A'' thirty_names]) (Some ''A'') 1 100 = Some star_collected"
  by code_simp

lemma star_run:
  "useWebOfTrust (relay [follows ''A'' thirty_names]) (Some ''A'') 1 100 None = Some star_snapshot"
  by code_simp

lemma star_hub:
  "hd (nodes star_snapshot) \<in> set (nodes star_snapshot) \<and> isHub (hd (nodes star_snapshot)) \<and>
   inDegree (hd (nodes star_snapshot)) + outDegree (hd (nodes star_snapshot)) = 30 \<and>
   val (hd (nodes star_snapshot)) = 21"
  by (simp add: star_snapshot_def)

theorem C2_importance_bounds_witness:
  "(collect (relay [follows ''A'' thirty_names]) (Some ''A'') 1 100 = Some star_collected \<and>
    list_all (\<lambda>e. 3 \<le> val (snd e) \<and> val (snd e) \<le> 20) (nodesMap star_collected)) \<and>
   (useWebOfTrust (relay [follows ''A'' thirty_names]) (Some ''A'') 1 100 None = Some star_snapshot \<and>
    list_all (\<lambda>n. 3 \<le> val n \<and> val n \<le> 30 \<and> (\<not> isHub n \<longrightarrow> val n \<le> 20) \<and>
         (isHub n \<longrightarrow>
            10 \<le> inDegree n + outDegree n \<and>
            15 + min (real (inDegree n + outDegree n) / 5) 15 \<le> val n \<and>
            val n \<le> max 20 (15 + min (real (inDegree n + outDegree n) / 5) 15)) \<and>
         (isHub n \<longrightarrow> (20 < val n \<longleftrightarrow> 25 < inDegree n + outDegree n)) \<and>
         (\<not> isHub n \<longrightarrow> 3 + min (real (inDegree n + outDegree n) / 2) 7 \<le> val n))
      (nodes star_snapshot)) \<and>
   isHub (hd (nodes star_snapshot)) \<and>
   25 < inDegree (hd (nodes star_snapshot)) + outDegree (hd (nodes star_snapshot)) \<and>
   20 < val (hd (nodes star_snapshot)) \<and> val (hd (nodes star_snapshot)) = 21"
  unfolding list_all_iff
  using C2_importance_bounds [where q = "relay [follows ''A'' thirty_names]" and sp = "Some ''A''"
      and d = 1 and limit = 100 and r = None and t = star_collected
      and g = star_snapshot]
    star_collect star_run star_hub
  by simp

section \<open>No dangling edges, no duplicate edges\<close>

text \<open>A fetcher that answers a query naming authors only with records of those authors.\<close>

definition honest :: "fetcher \<Rightarrow> bool" where
  "honest q \<longleftrightarrow>
     (\<forall>n flt evs as. q n flt = Some evs \<longrightarrow> flt_authors flt = Some as \<longrightarrow>
        (\<forall>ev\<in>set evs. Some (pubkey ev) \<in> set as))"

definition sources_ok :: "collector \<Rightarrow> bool" where
  "sources_ok s \<longleftrightarrow>
     (\<forall>e\<in>set (linksMap s). source (snd e) \<in> fst ` set (nodesMap s)) \<and>
     fst ` set (toProcess s) \<subseteq> fst ` set (nodesMap s)"

lemma add_followed_linksMap:
  "linksMap (add_followed d L a f s) =
     (if \<not> Map_has (linksMap s) (linkId (Some a) f)
      then linksMap s @ [(linkId (Some a) f,
             \<lparr>source = Some a, target = f, isBidirectional = False\<rparr>)]
      else linksMap s)"
  by (simp add: add_followed_def Let_def update_absent)

lemma add_followed_keys:
  "fst ` set (nodesMap (add_followed d L a f s)) = insert f (fst ` set (nodesMap s))"
  by (auto simp: add_followed_def Let_def update_absent AList.dom_map_entry)

lemma add_followed_pushed:
  "toProcess (add_followed d L a f s) =
     toProcess s @ (if \<not> Map_has (nodesMap s) f \<and> L + 1 < d \<and> f \<notin> processed s
                    then [(f, L + 1)] else [])"
  by (simp add: add_followed_def Let_def)

lemma add_followed_sources_ok:
  assumes "sources_ok s" and "Some a \<in> fst ` set (nodesMap s)"
  shows "sources_ok (add_followed d L a f s)"
  using assms unfolding sources_ok_def add_followed_linksMap add_followed_keys add_followed_pushed
  by auto

lemma fold_add_followed_sources_ok:
  "sources_ok s \<Longrightarrow> Some a \<in> fst ` set (nodesMap s) \<Longrightarrow>
   sources_ok (fold (add_followed d L a) fs s)"
proof (induction fs arbitrary: s)
  case Nil
  then show ?case by simp
next
  case (Cons f fs)
  have "sources_ok (add_followed d L a f s)"
    using Cons.prems by (rule add_followed_sources_ok)
  moreover have "Some a \<in> fst ` set (nodesMap (add_followed d L a f s))"
    using Cons.prems(2) by (simp add: add_followed_keys)
  ultimately show ?case using Cons.IH by simp
qed

lemma fold_add_followed_keys_mono:
  "fst ` set (nodesMap s) \<subseteq> fst ` set (nodesMap (fold (add_followed d L a) fs s))"
proof (induction fs arbitrary: s)
  case Nil
  show ?case by simp
next
  case (Cons f fs)
  have "fst ` set (nodesMap s) \<subseteq> fst ` set (nodesMap (add_followed d L a f s))"
    by (auto simp: add_followed_keys)
  with Cons.IH [of "add_followed d L a f s"] show ?case by auto
qed

lemma process_event_keys_mono:
  "fst ` set (nodesMap s) \<subseteq> fst ` set (nodesMap (process_event d L ev s))"
  unfolding process_event_def
  using fold_add_followed_keys_mono
    [of "s\<lparr>processed := insert (Some (pubkey ev)) (processed s)\<rparr>" d L "pubkey ev" "followedPubkeys ev"]
  by simp

lemma process_event_sources_ok:
  assumes "sources_ok s" and "Some (pubkey ev) \<in> fst ` set (nodesMap s)"
  shows "sources_ok (process_event d L ev s)"
  unfolding process_event_def
  by (rule fold_add_followed_sources_ok) (use assms in \<open>simp_all add: sources_ok_def\<close>)

lemma fold_process_event_sources_ok:
  "sources_ok s \<Longrightarrow> \<forall>ev\<in>set evs. Some (pubkey ev) \<in> fst ` set (nodesMap s) \<Longrightarrow>
   sources_ok (fold (process_event d L) evs s)"
proof (induction evs arbitrary: s)
  case Nil
  then show ?case by simp
next
  case (Cons ev evs)
  have "sources_ok (process_event d L ev s)"
    using Cons.prems by (simp add: process_event_sources_ok)
  moreover have "\<forall>ev'\<in>set evs. Some (pubkey ev') \<in> fst ` set (nodesMap (process_event d L ev s))"
    using Cons.prems(2) process_event_keys_mono [of s d L ev] by auto
  ultimately show ?case using Cons.IH by simp
qed

lemma sources_ok_frame:
  assumes "sources_ok s" and "nodesMap s' = nodesMap s" and "linksMap s' = linksMap s"
    and "fst ` set (toProcess s') \<subseteq> fst ` set (toProcess s)"
  shows "sources_ok s'"
proof -
  from assms(1) have "\<forall>e\<in>set (linksMap s). source (snd e) \<in> fst ` set (nodesMap s)"
    and "fst ` set (toProcess s) \<subseteq> fst ` set (nodesMap s)"
    by (simp_all add: sources_ok_def)
  with assms(4) show ?thesis
    unfolding sources_ok_def assms(2,3) by blast
qed

lemma loop_body_sources_ok:
  assumes "honest q" and "sources_ok s" and "loop_body q d s = Some s'"
  shows "sources_ok s'"
proof (cases "d \<le> batch_level (next_batch s)")
  case True
  let ?s1 = "s\<lparr>toProcess := drop 50 (toProcess s),
               processed := processed s \<union> set (map fst (next_batch s))\<rparr>"
  have s': "s' = ?s1"
    using assms(3) unfolding loop_body_skip [OF True] by simp
  have sub: "fst ` set (toProcess ?s1) \<subseteq> fst ` set (toProcess s)"
    using image_mono [OF set_drop_subset [of 50 "toProcess s"], of fst] by simp
  have "sources_ok ?s1"
    by (rule sources_ok_frame [OF assms(2) _ _ sub]) simp_all
  then show ?thesis by (simp only: s')
next
  case False
  let ?flt = "\<lparr>flt_kinds = [3], flt_authors = Some (map fst (next_batch s)), flt_limit = Some 1\<rparr>"
  let ?s0 = "s\<lparr>toProcess := drop 50 (toProcess s), queries := Suc (queries s)\<rparr>"
  from assms(3) obtain evs where evs: "q (queries s) ?flt = Some evs"
    and s': "s' = fold (process_event d (batch_level (next_batch s))) evs ?s0"
    unfolding loop_body_fetch [OF False] by (cases "q (queries s) ?flt") auto
  have "flt_authors ?flt = Some (map fst (next_batch s))" by simp
  with assms(1) evs have a1: "\<forall>ev\<in>set evs. Some (pubkey ev) \<in> set (map fst (next_batch s))"
    unfolding honest_def by blast
  have a2: "set (map fst (next_batch s)) \<subseteq> fst ` set (toProcess s)"
    using image_mono [OF set_take_subset [of 50 "toProcess s"], of fst]
    by (simp add: next_batch_def)
  have a3: "fst ` set (toProcess s) \<subseteq> fst ` set (nodesMap s)"
    using assms(2) by (simp add: sources_ok_def)
  have authors: "\<forall>ev\<in>set evs. Some (pubkey ev) \<in> fst ` set (nodesMap ?s0)"
  proof
    fix ev assume "ev \<in> set evs"
    with a1 have "Some (pubkey ev) \<in> set (map fst (next_batch s))" by blast
    with a2 a3 have "Some (pubkey ev) \<in> fst ` set (nodesMap s)" by blast
    then show "Some (pubkey ev) \<in> fst ` set (nodesMap ?s0)" by simp
  qed
  have sub: "fst ` set (toProcess ?s0) \<subseteq> fst ` set (toProcess s)"
    using image_mono [OF set_drop_subset [of 50 "toProcess s"], of fst] by simp
  have "sources_ok ?s0"
    by (rule sources_ok_frame [OF assms(2) _ _ sub]) simp_all
  then show ?thesis unfolding s' using authors by (rule fold_process_event_sources_ok)
qed

lemma add_seed_sources_ok:
  "sources_ok s \<Longrightarrow> linksMap s = [] \<Longrightarrow>
   sources_ok (add_seed ev s) \<and> linksMap (add_seed ev s) = []"
  by (auto simp: add_seed_def sources_ok_def AList.dom_update)

lemma fold_add_seed_sources_ok:
  "sources_ok s \<Longrightarrow> linksMap s = [] \<Longrightarrow>
   sources_ok (fold add_seed evs s) \<and> linksMap (fold add_seed evs s) = []"
  by (induction evs arbitrary: s) (simp_all add: add_seed_sources_ok)

lemma seed_sources_ok: "seed q sp limit = Some s \<Longrightarrow> sources_ok s"
proof (cases "truthy sp")
  case True
  assume "seed q sp limit = Some s"
  with True show ?thesis
    by (auto simp: seed_def sources_ok_def empty_collector_def)
next
  case False
  assume "seed q sp limit = Some s"
  with False obtain evs where s: "s = fold add_seed evs (empty_collector\<lparr>queries := 1\<rparr>)"
    by (auto simp: seed_def split: option.splits)
  have "sources_ok (empty_collector\<lparr>queries := 1\<rparr>)" "linksMap (empty_collector\<lparr>queries := 1\<rparr>) = []"
    by (simp_all add: sources_ok_def empty_collector_def)
  then show ?thesis unfolding s using fold_add_seed_sources_ok by blast
qed

lemma collect_sources_ok:
  assumes "collect q sp d limit = Some t" and "honest q"
  shows "sources_ok t"
proof -
  from assms(1) obtain s where s: "seed q sp limit = Some s" and run: "while_loop q d s = Some t"
    by (auto simp: collect_def split: option.splits)
  from while_loop_rule [where P = sources_ok, OF run seed_sources_ok [OF s]]
    loop_body_sources_ok [OF assms(2)]
  show ?thesis by blast
qed


lemma honest_relay: "honest (relay db)"
  by (auto simp: honest_def relay_def)

lemma degree_link_links:
  "map (\<lambda>e. (fst e, source (snd e), target (snd e))) (linksMap (degree_link e s)) =
   map (\<lambda>e. (fst e, source (snd e), target (snd e))) (linksMap s)"
  by (simp add: degree_link_def Let_def map_entry_proj [where p = "\<lambda>l. (source l, target l)"])

lemma fold_degree_link_links:
  "map (\<lambda>e. (fst e, source (snd e), target (snd e))) (linksMap (fold degree_link es s)) =
   map (\<lambda>e. (fst e, source (snd e), target (snd e))) (linksMap s)"
  by (induction es arbitrary: s) (simp_all add: degree_link_links)

lemma degrees_links:
  "map (\<lambda>e. (fst e, source (snd e), target (snd e))) (linksMap (degrees s)) =
   map (\<lambda>e. (fst e, source (snd e), target (snd e))) (linksMap s)"
  by (simp add: degrees_def fold_degree_link_links)

lemma update_hub_node_id: "node_id (update_hub h n) = node_id n"
  by (simp add: update_hub_def Let_def)

lemma snapshot_node_ids:
  assumes "useWebOfTrust q sp d limit r = Some g" and "collect q sp d limit = Some t"
  shows "map node_id (nodes g) = map fst (nodesMap t)"
proof -
  let ?N = "Map_values (nodesMap (degrees t))"
  have "map node_id (nodes g) = map node_id (detect_hubs ?N)"
    by (rule snapshot_nodes_frame [OF assms]) simp_all
  also have "\<dots> = map (\<lambda>e. node_id (snd e)) (nodesMap (degrees t))"
    by (simp add: detect_hubs_def Let_def update_hub_node_id comp_def)
  also have "\<dots> = map (fst \<circ> snd) (map (\<lambda>e. (fst e, node_id (snd e), val (snd e))) (nodesMap (degrees t)))"
    by (simp add: comp_def)
  also have "\<dots> = map (fst \<circ> snd) (map (\<lambda>e. (fst e, node_id (snd e), val (snd e))) (nodesMap t))"
    by (simp only: degrees_nodes)
  also have "\<dots> = map (\<lambda>e. node_id (snd e)) (nodesMap t)"
    by (simp add: comp_def)
  also have "\<dots> = map fst (nodesMap t)"
    using collect_graph_ok [OF assms(2)] by (simp add: graph_ok_def)
  finally show ?thesis .
qed

lemma snapshot_link_ends:
  assumes "useWebOfTrust q sp d limit r = Some g" and "collect q sp d limit = Some t"
  shows "map (\<lambda>l. (source l, target l)) (links g) =
         map (\<lambda>e. (source (snd e), target (snd e))) (linksMap t)"
proof -
  from assms(1) obtain t' where t': "collect q sp d limit = Some t'"
    and ls: "links g = Map_values (linksMap (degrees t'))"
    by (rule useWebOfTrust_unfold)
  from t' assms(2) have [simp]: "t' = t" by simp
  have "map (\<lambda>l. (source l, target l)) (links g) =
        map snd (map (\<lambda>e. (fst e, source (snd e), target (snd e))) (linksMap (degrees t)))"
    by (simp add: ls comp_def)
  also have "\<dots> = map snd (map (\<lambda>e. (fst e, source (snd e), target (snd e))) (linksMap t))"
    by (simp only: degrees_links)
  finally show ?thesis by (simp add: comp_def)
qed

lemma distinct_under_map: "distinct (map f ys) \<Longrightarrow> distinct ys"
  by (simp add: distinct_map)

lemma collect_links_distinct:
  assumes "collect q sp d limit = Some t"
  shows "distinct (map (\<lambda>e. (source (snd e), target (snd e))) (linksMap t))"
proof -
  let ?ends = "\<lambda>e::string \<times> GraphLink. (source (snd e), target (snd e))"
  from collect_graph_ok [OF assms] have dk: "distinct (map fst (linksMap t))"
    and key: "\<forall>e\<in>set (linksMap t). fst e = linkId (source (snd e)) (target (snd e))"
    by (simp_all add: graph_ok_def)
  have "map fst (linksMap t) = map (\<lambda>p. linkId (fst p) (snd p)) (map ?ends (linksMap t))"
    using key by (simp add: comp_def)
  with dk have "distinct (map (\<lambda>p. linkId (fst p) (snd p)) (map ?ends (linksMap t)))"
    by simp
  then show ?thesis by (rule distinct_under_map)
qed

text \<open>
  C8: when the fetcher answers a query for a batch only with records whose author was asked
  for, both ends of every edge of the snapshot are nodes of the snapshot; and, whatever the
  fetcher does, no two edges of the snapshot have the same source and the same target.
\<close>

theorem C8_no_dangling_edges:
  assumes "useWebOfTrust q sp d limit r = Some g"
  shows "(honest q \<longrightarrow>
            (\<forall>l\<in>set (links g). source l \<in> node_id ` set (nodes g) \<and>
                                target l \<in> node_id ` set (nodes g))) \<and>
         distinct (map (\<lambda>l. (source l, target l)) (links g))"
proof (intro conjI impI ballI)
  from assms obtain t where t: "collect q sp d limit = Some t"
    by (rule useWebOfTrust_unfold)
  note ids = snapshot_node_ids [OF assms t]
  note ends = snapshot_link_ends [OF assms t]
  show "distinct (map (\<lambda>l. (source l, target l)) (links g))"
    unfolding ends by (rule collect_links_distinct [OF t])
  fix l assume h: "honest q" and l: "l \<in> set (links g)"
  have keys: "node_id ` set (nodes g) = fst ` set (nodesMap t)"
    using arg_cong [OF ids, of set] by simp
  from l have "(source l, target l) \<in> set (map (\<lambda>l. (source l, target l)) (links g))"
    by force
  then obtain e where e: "e \<in> set (linksMap t)" "source (snd e) = source l"
      "target (snd e) = target l"
    unfolding ends by auto
  from collect_sources_ok [OF t h] e(1) have "source (snd e) \<in> fst ` set (nodesMap t)"
    unfolding sources_ok_def by blast
  then show "source l \<in> node_id ` set (nodes g)"
    by (simp only: keys e(2))
  from collect_graph_ok [OF t] e(1) have "target (snd e) \<in> fst ` set (nodesMap t)"
    unfolding graph_ok_def by blast
  then show "target l \<in> node_id ` set (nodes g)"
    by (simp only: keys e(3))
qed

text \<open>Scenario A: A follows B and C.\<close>

definition scenario_a_snapshot :: GraphData where
  "scenario_a_snapshot =
     \<lparr>nodes = [\<lparr>node_id = Some ''A'', val = 10, inDegree = 0, outDegree = 2, isHub = False,
                 cluster = Some 0, degreesFromRoot = Some 0\<rparr>,
               \<lparr>node_id = Some ''B'', val = 7 / 2, inDegree = 1, outDegree = 0, isHub = False,
                 cluster = Some 0, degreesFromRoot = Some 1\<rparr>,
               \<lparr>node_id = Some ''C'', val = 7 / 2, inDegree = 1, outDegree = 0, isHub = False,
                 cluster = Some 0, degreesFromRoot = Some 1\<rparr>],
      links = [\<lparr>source = Some ''A'', target = Some ''B'', isBidirectional = False\<rparr>,
               \<lparr>source = Some ''A'', target = Some ''C'', isBidirectional = False\<rparr>],
      stats = \<lparr>totalNodes = 3, totalLinks = 2, hubs = 0, bidirectionalLinks = 0, clusters = 1\<rparr>\<rparr>"

lemma scenario_a_run:
  "useWebOfTrust (relay [follows ''A'' [''B'', ''C'']]) (Some ''A'') 1 100 (Some ''A'') =
   Some scenario_a_snapshot"
  by code_simp

theorem C8_no_dangling_edges_witness:
  "useWebOfTrust (relay [follows ''A'' [''B'', ''C'']]) (Some ''A'') 1 100 (Some ''A'') =
     Some scenario_a_snapshot \<and>
   honest (relay [follows ''A'' [''B'', ''C'']]) \<and>
   list_all (\<lambda>l. source l \<in> node_id ` set (nodes scenario_a_snapshot) \<and>
                  target l \<in> node_id ` set (nodes scenario_a_snapshot))
     (links scenario_a_snapshot) \<and>
   distinct (map (\<lambda>l. (source l, target l)) (links scenario_a_snapshot))"
  unfolding list_all_iff
  using C8_no_dangling_edges [OF scenario_a_run] scenario_a_run
    honest_relay [of "[follows ''A'' [''B'', ''C'']]"]
  by blast

section \<open>Bidirectional links\<close>

definition reverse_id :: "GraphLink \<Rightarrow> string" where
  "reverse_id l = linkId (target l) (source l)"

definition mark :: "GraphLink \<Rightarrow> GraphLink" where
  "mark l = l\<lparr>isBidirectional := True\<rparr>"

text \<open>
  The entries that the pass over \<open>es\<close> marks, when \<open>K\<close> is the set of keys of the map:
  the entry itself and the entry under its reverse key, when that key is there.
\<close>

definition marked :: "(string \<times> GraphLink) list \<Rightarrow> string set \<Rightarrow> string \<Rightarrow> bool" where
  "marked es K k \<longleftrightarrow> (\<exists>e\<in>set es. reverse_id (snd e) \<in> K \<and> (k = fst e \<or> k = reverse_id (snd e)))"

lemma degree_link_keys: "map fst (linksMap (degree_link e s)) = map fst (linksMap s)"
proof -
  have "map fst (map (\<lambda>e. (fst e, source (snd e), target (snd e))) (linksMap (degree_link e s))) =
        map fst (map (\<lambda>e. (fst e, source (snd e), target (snd e))) (linksMap s))"
    by (simp only: degree_link_links)
  then show ?thesis by (simp add: comp_def)
qed

lemma degree_link_map_of:
  "map_of (linksMap (degree_link e s)) k =
     (if reverse_id (snd e) \<in> fst ` set (linksMap s) \<and> (k = fst e \<or> k = reverse_id (snd e))
      then map_option mark (map_of (linksMap s) k)
      else map_of (linksMap s) k)"
  by (auto simp: degree_link_def Let_def reverse_id_def mark_def AList.map_of_map_entry
      AList.dom_map_entry split: option.splits)

lemma map_option_mark_idem: "map_option mark (map_option mark x) = map_option mark x"
  by (cases x) (simp_all add: mark_def)

lemma fold_degree_link_map_of:
  "map_of (linksMap (fold degree_link es s)) k =
     (if marked es (fst ` set (linksMap s)) k
      then map_option mark (map_of (linksMap s) k)
      else map_of (linksMap s) k)"
proof (induction es arbitrary: s)
  case Nil
  show ?case by (simp add: marked_def)
next
  case (Cons e es)
  have keys: "fst ` set (linksMap (degree_link e s)) = fst ` set (linksMap s)"
    using arg_cong [OF degree_link_keys [of e s], of set] by simp
  have m: "marked (e # es) (fst ` set (linksMap s)) k \<longleftrightarrow>
      (reverse_id (snd e) \<in> fst ` set (linksMap s) \<and> (k = fst e \<or> k = reverse_id (snd e))) \<or>
      marked es (fst ` set (linksMap s)) k"
    by (auto simp: marked_def)
  show ?case
    by (auto simp: Cons.IH keys m degree_link_map_of map_option_mark_idem)
qed

lemma degrees_flag:
  assumes "graph_ok t" and "e' \<in> set (linksMap (degrees t))"
  shows "fst e' = linkId (source (snd e')) (target (snd e')) \<and>
         (isBidirectional (snd e') \<longleftrightarrow> marked (linksMap t) (fst ` set (linksMap t)) (fst e'))"
proof -
  have keys: "map fst (linksMap (degrees t)) = map fst (linksMap t)"
    using arg_cong [OF degrees_links [of t], of "map fst"] by (simp add: comp_def)
  from assms(1) have "distinct (map fst (linksMap t))" by (simp add: graph_ok_def)
  with keys have "distinct (map fst (linksMap (degrees t)))" by simp
  with assms(2) have "map_of (linksMap (degrees t)) (fst e') = Some (snd e')"
    by (simp add: map_of_eq_Some_iff)
  then have *: "(if marked (linksMap t) (fst ` set (linksMap t)) (fst e')
          then map_option mark (map_of (linksMap t) (fst e'))
          else map_of (linksMap t) (fst e')) = Some (snd e')"
    by (simp add: degrees_def fold_degree_link_map_of)
  then obtain l where l: "map_of (linksMap t) (fst e') = Some l"
    and e': "snd e' = (if marked (linksMap t) (fst ` set (linksMap t)) (fst e') then mark l else l)"
    by (cases "map_of (linksMap t) (fst e')") (auto split: if_splits)
  from l have "(fst e', l) \<in> set (linksMap t)" by (rule map_of_SomeD)
  with assms(1) have "fst e' = linkId (source l) (target l)" "\<not> isBidirectional l"
    by (auto simp: graph_ok_def)
  with e' show ?thesis by (auto simp: mark_def)
qed


text \<open>The edges of a list of links, and the keys under which the collector stores them.\<close>

definition edge_set :: "GraphLink list \<Rightarrow> (pubkey \<times> pubkey) set" where
  "edge_set ls = (\<lambda>l. (source l, target l)) ` set ls"

definition key_set :: "GraphLink list \<Rightarrow> string set" where
  "key_set ls = (\<lambda>l. linkId (source l) (target l)) ` set ls"

lemma key_setI: "l \<in> set ls \<Longrightarrow> k = linkId (source l) (target l) \<Longrightarrow> k \<in> key_set ls"
  by (simp add: key_set_def)

text \<open>
  What the pass computes, in terms of the snapshot alone: a link is marked when some link
  whose reverse key is a key of the map has the link's key as its own key or as its
  reverse key.
\<close>

lemma snapshot_flag:
  assumes "useWebOfTrust q sp d limit r = Some g" and "l \<in> set (links g)"
  shows "isBidirectional l \<longleftrightarrow>
         (\<exists>l2\<in>set (links g). linkId (target l2) (source l2) \<in> key_set (links g) \<and>
            (linkId (source l) (target l) = linkId (source l2) (target l2) \<or>
             linkId (source l) (target l) = linkId (target l2) (source l2)))"
proof -
  from assms(1) obtain t where t: "collect q sp d limit = Some t"
    and ls: "links g = Map_values (linksMap (degrees t))"
    by (rule useWebOfTrust_unfold)
  note ok = collect_graph_ok [OF t]
  have ends: "map (\<lambda>l. (source l, target l)) (links g) =
              map (\<lambda>e. (source (snd e), target (snd e))) (linksMap t)"
    by (rule snapshot_link_ends [OF assms(1) t])
  have key: "\<And>e. e \<in> set (linksMap t) \<Longrightarrow> fst e = linkId (source (snd e)) (target (snd e))"
    using ok by (simp add: graph_ok_def)
  have to_g: "\<exists>l2\<in>set (links g). source l2 = source (snd e) \<and> target l2 = target (snd e)"
    if "e \<in> set (linksMap t)" for e
  proof -
    from that have "(source (snd e), target (snd e)) \<in>
        set (map (\<lambda>e. (source (snd e), target (snd e))) (linksMap t))" by force
    then have "(source (snd e), target (snd e)) \<in> set (map (\<lambda>l. (source l, target l)) (links g))"
      by (simp only: ends)
    then show ?thesis by auto
  qed
  have to_t: "\<exists>e\<in>set (linksMap t). source l2 = source (snd e) \<and> target l2 = target (snd e)"
    if "l2 \<in> set (links g)" for l2
  proof -
    from that have "(source l2, target l2) \<in> set (map (\<lambda>l. (source l, target l)) (links g))"
      by force
    then have "(source l2, target l2) \<in>
        set (map (\<lambda>e. (source (snd e), target (snd e))) (linksMap t))"
      by (simp only: ends)
    then show ?thesis by auto
  qed
  have K: "fst ` set (linksMap t) = key_set (links g)"
  proof (intro set_eqI iffI)
    fix k assume "k \<in> fst ` set (linksMap t)"
    then obtain e where e: "e \<in> set (linksMap t)" "k = fst e" by auto
    from to_g [OF e(1)] obtain l2 where "l2 \<in> set (links g)"
        "source l2 = source (snd e)" "target l2 = target (snd e)" by blast
    with key [OF e(1)] e(2) show "k \<in> key_set (links g)"
      by (intro key_setI [of l2]) simp_all
  next
    fix k assume "k \<in> key_set (links g)"
    then obtain l2 where l2: "l2 \<in> set (links g)" "k = linkId (source l2) (target l2)"
      by (auto simp: key_set_def)
    from to_t [OF l2(1)] obtain e where e: "e \<in> set (linksMap t)"
        "source l2 = source (snd e)" "target l2 = target (snd e)" by blast
    with key [OF e(1)] l2(2) have "k = fst e" by simp
    with e(1) show "k \<in> fst ` set (linksMap t)" by blast
  qed
  from assms(2) obtain e' where e': "e' \<in> set (linksMap (degrees t))" "snd e' = l"
    by (auto simp: ls)
  from degrees_flag [OF ok e'(1)] e'(2)
  have k: "fst e' = linkId (source l) (target l)"
    and flag: "isBidirectional l \<longleftrightarrow> marked (linksMap t) (key_set (links g)) (fst e')"
    by (simp_all add: K)
  show ?thesis
  proof
    assume "isBidirectional l"
    with flag obtain e where e: "e \<in> set (linksMap t)"
        "reverse_id (snd e) \<in> key_set (links g)"
        "fst e' = fst e \<or> fst e' = reverse_id (snd e)"
      by (auto simp: marked_def)
    from to_g [OF e(1)] obtain l2 where l2: "l2 \<in> set (links g)"
        "source l2 = source (snd e)" "target l2 = target (snd e)" by blast
    from e(2,3) key [OF e(1)] k l2 show
      "\<exists>l2\<in>set (links g). linkId (target l2) (source l2) \<in> key_set (links g) \<and>
            (linkId (source l) (target l) = linkId (source l2) (target l2) \<or>
             linkId (source l) (target l) = linkId (target l2) (source l2))"
      by (intro bexI [of _ l2]) (auto simp: reverse_id_def)
  next
    assume "\<exists>l2\<in>set (links g). linkId (target l2) (source l2) \<in> key_set (links g) \<and>
            (linkId (source l) (target l) = linkId (source l2) (target l2) \<or>
             linkId (source l) (target l) = linkId (target l2) (source l2))"
    then obtain l2 where l2: "l2 \<in> set (links g)"
        "linkId (target l2) (source l2) \<in> key_set (links g)"
        "linkId (source l) (target l) = linkId (source l2) (target l2) \<or>
         linkId (source l) (target l) = linkId (target l2) (source l2)" by blast
    from to_t [OF l2(1)] obtain e where e: "e \<in> set (linksMap t)"
        "source l2 = source (snd e)" "target l2 = target (snd e)" by blast
    from l2(2,3) e(2,3) key [OF e(1)] k
    have "reverse_id (snd e) \<in> key_set (links g) \<and>
          (fst e' = fst e \<or> fst e' = reverse_id (snd e))"
      by (auto simp: reverse_id_def)
    with e(1) have "marked (linksMap t) (key_set (links g)) (fst e')"
      unfolding marked_def by blast
    with flag show "isBidirectional l" by simp
  qed
qed

lemma snapshot_bidirectional_count:
  assumes "useWebOfTrust q sp d limit r = Some g"
  shows "bidirectionalLinks (stats g) = length (filter isBidirectional (links g))"
proof -
  from assms have "stats g = make_stats (nodes g) (links g)" by (rule useWebOfTrust_unfold)
  then show ?thesis by (simp add: make_stats_def)
qed

lemma snapshot_links_distinct:
  assumes "useWebOfTrust q sp d limit r = Some g"
  shows "distinct (map (\<lambda>l. (source l, target l)) (links g))"
proof -
  from assms obtain t where t: "collect q sp d limit = Some t" by (rule useWebOfTrust_unfold)
  show ?thesis
    unfolding snapshot_link_ends [OF assms t] by (rule collect_links_distinct [OF t])
qed

text \<open>
  C10: every self-loop of a snapshot is marked bidirectional, a self-loop of an identity is
  a single edge, and each self-loop counts once in \<open>bidirectionalLinks\<close>, next to the
  marked links between different identities.
\<close>

theorem C10_self_loop_bidirectional:
  assumes "useWebOfTrust q sp d limit r = Some g"
  shows "(\<forall>l\<in>set (links g). source l = target l \<longrightarrow> isBidirectional l) \<and>
         distinct (map (\<lambda>l. (source l, target l)) (links g)) \<and>
         bidirectionalLinks (stats g) =
           length (filter (\<lambda>l. source l = target l) (links g)) +
           length (filter (\<lambda>l. source l \<noteq> target l \<and> isBidirectional l) (links g))"
proof (intro conjI)
  show loops: "\<forall>l\<in>set (links g). source l = target l \<longrightarrow> isBidirectional l"
  proof (intro ballI impI)
    fix l assume l: "l \<in> set (links g)" and self: "source l = target l"
    from l have "linkId (target l) (source l) \<in> key_set (links g)"
      by (rule key_setI) (simp add: self)
    with l show "isBidirectional l"
      unfolding snapshot_flag [OF assms l] by blast
  qed
  show "distinct (map (\<lambda>l. (source l, target l)) (links g))"
    by (rule snapshot_links_distinct [OF assms])
  have "length (filter isBidirectional (links g)) =
        length (filter (\<lambda>l. source l = target l) (filter isBidirectional (links g))) +
        length (filter (\<lambda>l. \<not> source l = target l) (filter isBidirectional (links g)))"
    by (simp only: sum_length_filter_compl)
  also have "filter (\<lambda>l. source l = target l) (filter isBidirectional (links g)) =
             filter (\<lambda>l. source l = target l) (links g)"
    unfolding filter_filter by (rule filter_cong) (use loops in auto)
  also have "filter (\<lambda>l. \<not> source l = target l) (filter isBidirectional (links g)) =
             filter (\<lambda>l. source l \<noteq> target l \<and> isBidirectional l) (links g)"
    by (simp add: conj_commute)
  finally show "bidirectionalLinks (stats g) =
           length (filter (\<lambda>l. source l = target l) (links g)) +
           length (filter (\<lambda>l. source l \<noteq> target l \<and> isBidirectional l) (links g))"
    by (simp only: snapshot_bidirectional_count [OF assms])
qed

theorem C10_self_loop_bidirectional_witness:
  "useWebOfTrust (relay [follows ''A'' [''A'']]) (Some ''A'') 1 100 None = Some self_loop_snapshot \<and>
   list_all (\<lambda>l. source l = target l \<longrightarrow> isBidirectional l) (links self_loop_snapshot) \<and>
   distinct (map (\<lambda>l. (source l, target l)) (links self_loop_snapshot)) \<and>
   bidirectionalLinks (stats self_loop_snapshot) =
     length (filter (\<lambda>l. source l = target l) (links self_loop_snapshot)) +
     length (filter (\<lambda>l. source l \<noteq> target l \<and> isBidirectional l) (links self_loop_snapshot))"
  unfolding list_all_iff
  using C10_self_loop_bidirectional [OF self_loop_run] self_loop_run by blast

text \<open>
  The key of a link is the concatenation of its ends around \<^verbatim>\<open>->\<close>. It determines the ends
  when the ends are strings without the character \<^verbatim>\<open>>\<close>, as hexadecimal public keys are.
\<close>

definition plain_id :: "pubkey \<Rightarrow> bool" where
  "plain_id k = (case k of None \<Rightarrow> False | Some s \<Rightarrow> CHR ''>'' \<notin> set s)"

lemma arrow_split:
  assumes "CHR ''>'' \<notin> set x"
  shows "takeWhile (\<lambda>c. c \<noteq> CHR ''>'') (x @ ''->'' @ u) = x @ ''-''"
  using assms by (induction x) auto

lemma linkId_inject:
  assumes "plain_id a" and "plain_id b" and "plain_id c" and "plain_id d"
    and "linkId a b = linkId c d"
  shows "a = c \<and> b = d"
proof -
  from assms(1-4) obtain x u y v where
    v: "a = Some x" "b = Some u" "c = Some y" "d = Some v"
    and gt: "CHR ''>'' \<notin> set x" "CHR ''>'' \<notin> set y"
    by (auto simp: plain_id_def split: option.splits)
  from assms(5) have eq: "x @ ''->'' @ u = y @ ''->'' @ v"
    by (simp add: linkId_def v)
  then have "takeWhile (\<lambda>c. c \<noteq> CHR ''>'') (x @ ''->'' @ u) =
             takeWhile (\<lambda>c. c \<noteq> CHR ''>'') (y @ ''->'' @ v)" by simp
  then have "x @ ''-'' = y @ ''-''"
    by (simp only: arrow_split [OF gt(1)] arrow_split [OF gt(2)])
  then have "x = y" by simp
  with eq show ?thesis by (simp add: v)
qed

text \<open>
  C6 fails on the code: the pass that marks mutual follows looks the reverse edge up under
  the concatenated key of its ends, and two different edges can share a key. In global mode
  with depth 1, let a follow the identity \<^verbatim>\<open>b->c\<close> and b follow the identity \<^verbatim>\<open>c->a\<close>: the
  reverse key of the first link, \<^verbatim>\<open>b->c->a\<close>, is the key of the second, so the pass marks
  the first link and the link stored under that key. Both links are marked bidirectional,
  neither has its reverse edge in the edge set, and \<open>bidirectionalLinks\<close> is 2 where no
  two identities follow each other.
\<close>

theorem C6_marked_without_reverse:
  "map_option (\<lambda>g. (map (\<lambda>l. (source l, target l, isBidirectional l,
                                   (target l, source l) \<in> edge_set (links g))) (links g),
                     bidirectionalLinks (stats g)))
     (useWebOfTrust (relay [follows ''a'' [''b->c''], follows ''b'' [''c->a'']]) None 1 100 None) =
   Some ([(Some ''a'', Some ''b->c'', True, False), (Some ''b'', Some ''c->a'', True, False)], 2)"
  by code_simp

text \<open>
  What the marking pass does establish: in a snapshot whose identities are strings without
  \<^verbatim>\<open>>\<close>, as hexadecimal public keys are, a link is marked bidirectional exactly when its
  reverse edge is in the edge set; the reverse of a marked link is marked; and
  \<open>bidirectionalLinks\<close> counts the links that have their reverse in the edge set, so that a
  mutual pair counts twice, once for each direction.
\<close>

theorem bidirectional_iff_reverse:
  assumes "useWebOfTrust q sp d limit r = Some g"
    and "\<forall>l\<in>set (links g). plain_id (source l) \<and> plain_id (target l)"
  shows "(\<forall>l\<in>set (links g). isBidirectional l \<longleftrightarrow> (target l, source l) \<in> edge_set (links g)) \<and>
         (\<forall>l\<in>set (links g). \<forall>l'\<in>set (links g).
            isBidirectional l \<and> source l' = target l \<and> target l' = source l \<longrightarrow>
            isBidirectional l') \<and>
         bidirectionalLinks (stats g) =
           length (filter (\<lambda>l. (target l, source l) \<in> edge_set (links g)) (links g))"
proof -
  have iff: "isBidirectional l \<longleftrightarrow> (target l, source l) \<in> edge_set (links g)"
    if l: "l \<in> set (links g)" for l
  proof
    assume "isBidirectional l"
    then obtain l2 where l2: "l2 \<in> set (links g)"
        "linkId (target l2) (source l2) \<in> key_set (links g)"
        "linkId (source l) (target l) = linkId (source l2) (target l2) \<or>
         linkId (source l) (target l) = linkId (target l2) (source l2)"
      unfolding snapshot_flag [OF assms(1) l] by blast
    from l2(2) obtain l3 where l3: "l3 \<in> set (links g)"
        "linkId (target l2) (source l2) = linkId (source l3) (target l3)"
      by (auto simp: key_set_def)
    from assms(2) l l2(1) l3(1) have p: "plain_id (source l)" "plain_id (target l)"
        "plain_id (source l2)" "plain_id (target l2)"
        "plain_id (source l3)" "plain_id (target l3)" by blast+
    from linkId_inject [OF p(4) p(3) p(5) p(6) l3(2)]
    have rev: "source l3 = target l2" "target l3 = source l2" by simp_all
    from l2(3) show "(target l, source l) \<in> edge_set (links g)"
    proof
      assume "linkId (source l) (target l) = linkId (source l2) (target l2)"
      from linkId_inject [OF p(1) p(2) p(3) p(4) this] rev l3(1)
      show ?thesis by (force simp: edge_set_def)
    next
      assume "linkId (source l) (target l) = linkId (target l2) (source l2)"
      from linkId_inject [OF p(1) p(2) p(4) p(3) this] l2(1)
      show ?thesis by (force simp: edge_set_def)
    qed
  next
    assume "(target l, source l) \<in> edge_set (links g)"
    then obtain l3 where l3: "l3 \<in> set (links g)" "source l3 = target l" "target l3 = source l"
      by (auto simp: edge_set_def)
    then have "linkId (target l) (source l) \<in> key_set (links g)"
      by (intro key_setI [of l3]) simp_all
    with l show "isBidirectional l"
      unfolding snapshot_flag [OF assms(1) l] by blast
  qed
  have sym: "isBidirectional l'"
    if "l \<in> set (links g)" "l' \<in> set (links g)" "isBidirectional l"
       "source l' = target l" "target l' = source l" for l l'
  proof -
    from that(1,4,5) have "(target l', source l') \<in> edge_set (links g)"
      by (force simp: edge_set_def)
    with iff [OF that(2)] show ?thesis by simp
  qed
  have "filter isBidirectional (links g) =
        filter (\<lambda>l. (target l, source l) \<in> edge_set (links g)) (links g)"
    by (rule filter_cong) (simp_all add: iff)
  then have "bidirectionalLinks (stats g) =
      length (filter (\<lambda>l. (target l, source l) \<in> edge_set (links g)) (links g))"
    by (simp only: snapshot_bidirectional_count [OF assms(1)])
  with iff sym show ?thesis by blast
qed

text \<open>Scenario B: A follows B and B follows A, depth 2.\<close>

definition scenario_b_snapshot :: GraphData where
  "scenario_b_snapshot =
     \<lparr>nodes = [\<lparr>node_id = Some ''A'', val = 11, inDegree = 1, outDegree = 1, isHub = False,
                 cluster = Some 0, degreesFromRoot = None\<rparr>,
               \<lparr>node_id = Some ''B'', val = 4, inDegree = 1, outDegree = 1, isHub = False,
                 cluster = Some 0, degreesFromRoot = None\<rparr>],
      links = [\<lparr>source = Some ''A'', target = Some ''B'', isBidirectional = True\<rparr>,
               \<lparr>source = Some ''B'', target = Some ''A'', isBidirectional = True\<rparr>],
      stats = \<lparr>totalNodes = 2, totalLinks = 2, hubs = 0, bidirectionalLinks = 2, clusters = 1\<rparr>\<rparr>"

lemma scenario_b_run:
  "useWebOfTrust (relay [follows ''A'' [''B''], follows ''B'' [''A'']]) (Some ''A'') 2 100 None =
   Some scenario_b_snapshot"
  by code_simp

lemma scenario_b_plain:
  "\<forall>l\<in>set (links scenario_b_snapshot). plain_id (source l) \<and> plain_id (target l)"
  by (simp add: scenario_b_snapshot_def plain_id_def)

theorem bidirectional_iff_reverse_scenario_b:
  "useWebOfTrust (relay [follows ''A'' [''B''], follows ''B'' [''A'']]) (Some ''A'') 2 100 None =
     Some scenario_b_snapshot \<and>
   list_all (\<lambda>l. plain_id (source l) \<and> plain_id (target l)) (links scenario_b_snapshot) \<and>
   list_all (\<lambda>l. isBidirectional l \<longleftrightarrow>
                  (target l, source l) \<in> edge_set (links scenario_b_snapshot))
     (links scenario_b_snapshot) \<and>
   bidirectionalLinks (stats scenario_b_snapshot) =
     length (filter (\<lambda>l. (target l, source l) \<in> edge_set (links scenario_b_snapshot))
               (links scenario_b_snapshot)) \<and>
   bidirectionalLinks (stats scenario_b_snapshot) = 2"
proof -
  have "bidirectionalLinks (stats scenario_b_snapshot) = 2"
    by (simp add: scenario_b_snapshot_def)
  with bidirectional_iff_reverse [OF scenario_b_run scenario_b_plain]
    scenario_b_run scenario_b_plain
  show ?thesis unfolding list_all_iff by blast
qed

section \<open>Termination of the frontier loop\<close>

text \<open>
  The loop run for at most \<open>n\<close> iterations, and the batches that the loop takes from the
  frontier, in order. When the loop ends by itself, every entry that was ever put into the
  frontier has been taken out in one of these batches.
\<close>

primrec iterations :: "nat \<Rightarrow> fetcher \<Rightarrow> nat \<Rightarrow> collector \<Rightarrow> collector option" where
  "iterations 0 query depth s = Some s"
| "iterations (Suc n) query depth s =
     (if toProcess s = [] then Some s
      else (case loop_body query depth s of
              None \<Rightarrow> None
            | Some s' \<Rightarrow> iterations n query depth s'))"

function batches :: "fetcher \<Rightarrow> nat \<Rightarrow> collector \<Rightarrow> (pubkey \<times> nat) list list" where
  "batches query depth s =
     (if toProcess s = [] then []
      else next_batch s #
           (case loop_body query depth s of
              None \<Rightarrow> []
            | Some s' \<Rightarrow> batches query depth s'))"
  by pat_completeness auto
termination
proof (relation "inv_image {(M, N). M < N} (\<lambda>(q, d, s). frontier_weight d s)")
  show "wf (inv_image {(M::nat multiset, N). M < N} (\<lambda>(q, d, s). frontier_weight d s))"
    using wfp_less_multiset [where ?'a = nat] by (simp add: wfp_def)
next
  fix query :: fetcher and depth s s'
  assume "toProcess s \<noteq> []" "loop_body query depth s = Some s'"
  then show "((query, depth, s'), (query, depth, s)) \<in>
      inv_image {(M, N). M < N} (\<lambda>(q, d, s). frontier_weight d s)"
    using loop_body_decreases by simp
qed

declare batches.simps [simp del]

lemma while_loop_iterations: "\<exists>n. iterations n q d s = while_loop q d s"
proof (induction q d s rule: while_loop.induct)
  case (1 query depth s)
  show ?case
  proof (cases "toProcess s = []")
    case True
    then have "iterations 0 query depth s = while_loop query depth s"
      by (simp add: while_loop.simps [of query depth s])
    then show ?thesis by blast
  next
    case False
    show ?thesis
    proof (cases "loop_body query depth s")
      case None
      with False have "iterations (Suc 0) query depth s = while_loop query depth s"
        by (simp add: while_loop.simps [of query depth s])
      then show ?thesis by blast
    next
      case (Some s')
      from "1.IH" [OF False Some] obtain n where
        "iterations n query depth s' = while_loop query depth s'" by blast
      with False Some have "iterations (Suc n) query depth s = while_loop query depth s"
        by (simp add: while_loop.simps [of query depth s])
      then show ?thesis by blast
    qed
  qed
qed

lemma while_loop_empties: "while_loop q d s = Some t \<Longrightarrow> toProcess t = []"
  using while_loop_rule [where P = "\<lambda>s. True" and q = q and d = d and s = s and t = t] by simp

text \<open>What one iteration puts into the frontier: identities that had no node before.\<close>

definition fresh_push :: "collector \<Rightarrow> collector \<Rightarrow> (pubkey \<times> nat) list \<Rightarrow> bool" where
  "fresh_push s s' add \<longleftrightarrow>
     distinct (map fst add) \<and>
     fst ` set add \<inter> fst ` set (nodesMap s) = {} \<and>
     fst ` set add \<subseteq> fst ` set (nodesMap s') \<and>
     fst ` set (nodesMap s) \<subseteq> fst ` set (nodesMap s')"

lemma fresh_push_refl: "fresh_push s s []"
  by (simp add: fresh_push_def)

lemma fresh_push_trans:
  assumes "fresh_push s s1 add1" and "fresh_push s1 s2 add2"
  shows "fresh_push s s2 (add1 @ add2)"
proof -
  let ?K = "fst ` set (nodesMap s)" and ?K1 = "fst ` set (nodesMap s1)"
  let ?K2 = "fst ` set (nodesMap s2)"
  from assms(1) have a1: "distinct (map fst add1)" "fst ` set add1 \<inter> ?K = {}"
      "fst ` set add1 \<subseteq> ?K1" "?K \<subseteq> ?K1"
    by (simp_all add: fresh_push_def)
  from assms(2) have a2: "distinct (map fst add2)" "fst ` set add2 \<inter> ?K1 = {}"
      "fst ` set add2 \<subseteq> ?K2" "?K1 \<subseteq> ?K2"
    by (simp_all add: fresh_push_def)
  have "fst ` set add1 \<inter> fst ` set add2 = {}" using a1(3) a2(2) by blast
  then have d: "distinct (map fst (add1 @ add2))" using a1(1) a2(1) by simp
  have i: "fst ` set (add1 @ add2) \<inter> ?K = {}"
    using a1(2,4) a2(2) unfolding set_append image_Un by blast
  have u: "fst ` set (add1 @ add2) \<subseteq> ?K2"
    using a1(3) a2(3,4) unfolding set_append image_Un by blast
  have m: "?K \<subseteq> ?K2" using a1(4) a2(4) by blast
  from d i u m show ?thesis unfolding fresh_push_def by blast
qed

lemma fresh_push_frame:
  "fresh_push s s' add \<Longrightarrow> nodesMap s0 = nodesMap s \<Longrightarrow> fresh_push s0 s' add"
  by (simp add: fresh_push_def)

lemma add_followed_fresh:
  "\<exists>add. toProcess (add_followed d L a f s) = toProcess s @ add \<and>
         fresh_push s (add_followed d L a f s) add"
proof -
  let ?add = "if \<not> Map_has (nodesMap s) f \<and> L + 1 < d \<and> f \<notin> processed s
              then [(f, L + 1)] else []"
  have "fresh_push s (add_followed d L a f s) ?add"
    unfolding fresh_push_def add_followed_keys by auto
  with add_followed_pushed [of d L a f s] show ?thesis by blast
qed

lemma fold_add_followed_fresh:
  "\<exists>add. toProcess (fold (add_followed d L a) fs s) = toProcess s @ add \<and>
         fresh_push s (fold (add_followed d L a) fs s) add"
proof (induction fs arbitrary: s)
  case Nil
  show ?case by (simp add: fresh_push_refl)
next
  case (Cons f fs)
  let ?s1 = "add_followed d L a f s"
  obtain add1 where a1: "toProcess ?s1 = toProcess s @ add1" "fresh_push s ?s1 add1"
    using add_followed_fresh by blast
  obtain add2 where a2:
      "toProcess (fold (add_followed d L a) fs ?s1) = toProcess ?s1 @ add2"
      "fresh_push ?s1 (fold (add_followed d L a) fs ?s1) add2"
    using Cons.IH by blast
  have "toProcess (fold (add_followed d L a) (f # fs) s) = toProcess s @ (add1 @ add2)"
    by (simp add: a1(1) a2(1))
  moreover have "fresh_push s (fold (add_followed d L a) (f # fs) s) (add1 @ add2)"
    using fresh_push_trans [OF a1(2) a2(2)] by simp
  ultimately show ?case by blast
qed

lemma process_event_fresh:
  "\<exists>add. toProcess (process_event d L ev s) = toProcess s @ add \<and>
         fresh_push s (process_event d L ev s) add"
proof -
  let ?s0 = "s\<lparr>processed := insert (Some (pubkey ev)) (processed s)\<rparr>"
  obtain add where a: "toProcess (process_event d L ev s) = toProcess ?s0 @ add"
      "fresh_push ?s0 (process_event d L ev s) add"
    unfolding process_event_def using fold_add_followed_fresh by blast
  from a(2) have "fresh_push s (process_event d L ev s) add"
    by (simp add: fresh_push_def)
  with a(1) show ?thesis by auto
qed

lemma fold_process_event_fresh:
  "\<exists>add. toProcess (fold (process_event d L) evs s) = toProcess s @ add \<and>
         fresh_push s (fold (process_event d L) evs s) add"
proof (induction evs arbitrary: s)
  case Nil
  show ?case by (simp add: fresh_push_refl)
next
  case (Cons ev evs)
  let ?s1 = "process_event d L ev s"
  obtain add1 where a1: "toProcess ?s1 = toProcess s @ add1" "fresh_push s ?s1 add1"
    using process_event_fresh by blast
  obtain add2 where a2:
      "toProcess (fold (process_event d L) evs ?s1) = toProcess ?s1 @ add2"
      "fresh_push ?s1 (fold (process_event d L) evs ?s1) add2"
    using Cons.IH by blast
  have "toProcess (fold (process_event d L) (ev # evs) s) = toProcess s @ (add1 @ add2)"
    by (simp add: a1(1) a2(1))
  moreover have "fresh_push s (fold (process_event d L) (ev # evs) s) (add1 @ add2)"
    using fresh_push_trans [OF a1(2) a2(2)] by simp
  ultimately show ?case by blast
qed

lemma loop_body_fresh:
  assumes "loop_body q d s = Some s'"
  shows "\<exists>add. toProcess s' = drop 50 (toProcess s) @ add \<and> fresh_push s s' add"
proof (cases "d \<le> batch_level (next_batch s)")
  case True
  let ?s1 = "s\<lparr>toProcess := drop 50 (toProcess s),
               processed := processed s \<union> set (map fst (next_batch s))\<rparr>"
  have s': "s' = ?s1"
    using assms unfolding loop_body_skip [OF True] by simp
  have "toProcess ?s1 = drop 50 (toProcess s) @ []" "fresh_push s ?s1 []"
    by (simp_all add: fresh_push_def)
  then show ?thesis unfolding s' by blast
next
  case False
  let ?flt = "\<lparr>flt_kinds = [3], flt_authors = Some (map fst (next_batch s)), flt_limit = Some 1\<rparr>"
  let ?s0 = "s\<lparr>toProcess := drop 50 (toProcess s), queries := Suc (queries s)\<rparr>"
  from assms obtain evs where
    s': "s' = fold (process_event d (batch_level (next_batch s))) evs ?s0"
    unfolding loop_body_fetch [OF False] by (cases "q (queries s) ?flt") auto
  obtain add where a: "toProcess s' = toProcess ?s0 @ add" "fresh_push ?s0 s' add"
    unfolding s' using fold_process_event_fresh by blast
  from a(2) have "fresh_push s s' add" by (simp add: fresh_push_def)
  with a(1) show ?thesis by auto
qed


definition frontier_ok :: "collector \<Rightarrow> bool" where
  "frontier_ok s \<longleftrightarrow>
     distinct (map fst (toProcess s)) \<and> fst ` set (toProcess s) \<subseteq> fst ` set (nodesMap s)"

lemma take_drop_keys:
  assumes "distinct (map fst xs)"
  shows "distinct (map fst (take n xs))" and "distinct (map fst (drop n xs))"
    and "fst ` set (take n xs) \<inter> fst ` set (drop n xs) = {}"
    and "fst ` set (take n xs) \<subseteq> fst ` set xs" and "fst ` set (drop n xs) \<subseteq> fst ` set xs"
proof -
  have "distinct (map fst (take n xs) @ map fst (drop n xs))"
    using assms by (simp only: map_append [symmetric] append_take_drop_id)
  then show "distinct (map fst (take n xs))" "distinct (map fst (drop n xs))"
    "fst ` set (take n xs) \<inter> fst ` set (drop n xs) = {}"
    by simp_all
  show "fst ` set (take n xs) \<subseteq> fst ` set xs"
    by (rule image_mono) (rule set_take_subset)
  show "fst ` set (drop n xs) \<subseteq> fst ` set xs"
    by (rule image_mono) (rule set_drop_subset)
qed

lemma loop_body_frontier_ok:
  assumes "frontier_ok s" and "toProcess s' = drop 50 (toProcess s) @ add" and "fresh_push s s' add"
  shows "frontier_ok s'"
proof -
  let ?Q = "toProcess s" and ?K = "fst ` set (nodesMap s)" and ?K' = "fst ` set (nodesMap s')"
  from assms(1) have q: "distinct (map fst ?Q)" "fst ` set ?Q \<subseteq> ?K"
    by (simp_all add: frontier_ok_def)
  from assms(3) have a: "distinct (map fst add)" "fst ` set add \<inter> ?K = {}"
      "fst ` set add \<subseteq> ?K'" "?K \<subseteq> ?K'"
    by (simp_all add: fresh_push_def)
  note td = take_drop_keys [OF q(1), of 50]
  have "fst ` set (drop 50 ?Q) \<inter> fst ` set add = {}"
    using td(5) q(2) a(2) by blast
  then have "distinct (map fst (drop 50 ?Q @ add))"
    using td(2) a(1) by simp
  moreover have "fst ` set (drop 50 ?Q @ add) \<subseteq> ?K'"
    using td(5) q(2) a(3,4) unfolding set_append image_Un by blast
  ultimately show ?thesis by (simp add: frontier_ok_def assms(2))
qed

lemma batches_distinct:
  "frontier_ok s \<Longrightarrow>
   distinct (map fst (concat (batches q d s))) \<and>
   (\<forall>k\<in>fst ` set (concat (batches q d s)).
      k \<in> fst ` set (toProcess s) \<or> k \<notin> fst ` set (nodesMap s))"
proof (induction q d s rule: batches.induct)
  case (1 query depth s)
  let ?Q = "toProcess s" and ?K = "fst ` set (nodesMap s)"
  from "1.prems" have q: "distinct (map fst ?Q)" "fst ` set ?Q \<subseteq> ?K"
    by (simp_all add: frontier_ok_def)
  note td = take_drop_keys [OF q(1), of 50]
  show ?case
  proof (cases "?Q = []")
    case True
    then show ?thesis by (simp add: batches.simps [of query depth s])
  next
    case False
    show ?thesis
    proof (cases "loop_body query depth s")
      case None
      with False have "concat (batches query depth s) = take 50 ?Q"
        by (simp add: batches.simps [of query depth s] next_batch_def)
      with td(1,4) show ?thesis by auto
    next
      case (Some s')
      let ?F = "fst ` set (concat (batches query depth s'))"
      from loop_body_fresh [OF Some] obtain add where
        add: "toProcess s' = drop 50 ?Q @ add" "fresh_push s s' add" by blast
      have ok': "frontier_ok s'" by (rule loop_body_frontier_ok [OF "1.prems" add])
      from "1.IH" [OF False Some ok'] have
        ih: "distinct (map fst (concat (batches query depth s')))"
        "\<forall>k\<in>?F. k \<in> fst ` set (toProcess s') \<or> k \<notin> fst ` set (nodesMap s')"
        by simp_all
      from add(2) have a: "fst ` set add \<inter> ?K = {}" "?K \<subseteq> fst ` set (nodesMap s')"
        by (simp_all add: fresh_push_def)
      define T where "T = fst ` set (take 50 ?Q)"
      define D where "D = fst ` set (drop 50 ?Q)"
      define A where "A = fst ` set add"
      define K where "K = ?K"
      define K' where "K' = fst ` set (nodesMap s')"
      define F where "F = ?F"
      have sets: "T \<inter> D = {}" "T \<subseteq> K" "D \<subseteq> K" "A \<inter> K = {}" "K \<subseteq> K'"
        using td(3,4,5) q(2) a unfolding T_def D_def A_def K_def K'_def by blast+
      have "\<forall>k\<in>F. k \<in> D \<union> A \<or> k \<notin> K'"
        using ih(2) unfolding add(1) set_append image_Un F_def D_def A_def K'_def .
      with sets have fut: "\<forall>k\<in>F. k \<in> D \<or> k \<notin> K" by blast
      with sets have disj: "T \<inter> F = {}" by blast
      have cc: "concat (batches query depth s) = take 50 ?Q @ concat (batches query depth s')"
        using False Some by (simp add: batches.simps [of query depth s] next_batch_def)
      have "distinct (map fst (concat (batches query depth s)))"
        unfolding cc using td(1) ih(1) disj [unfolded T_def F_def] by simp
      moreover have "\<forall>k\<in>T \<union> F. k \<in> fst ` set ?Q \<or> k \<notin> K"
        using fut td(4,5) unfolding T_def D_def by blast
      then have "\<forall>k\<in>fst ` set (concat (batches query depth s)). k \<in> fst ` set ?Q \<or> k \<notin> ?K"
        unfolding cc set_append image_Un T_def F_def K_def .
      ultimately show ?thesis by blast
    qed
  qed
qed

lemma seed_frontier_keys:
  assumes "seed q sp limit = Some s"
  shows "fst ` set (toProcess s) \<subseteq> fst ` set (nodesMap s)"
  using seed_sources_ok [OF assms] by (simp add: sources_ok_def)

lemma seed_start_distinct:
  "truthy sp \<Longrightarrow> seed q sp limit = Some s \<Longrightarrow> distinct (map fst (toProcess s))"
  by (auto simp: seed_def empty_collector_def)


text \<open>
  C4 fails on the code: global seeding guards the push of a seed author with
  \<open>processed\<close>, which is still empty while the seed records are read, so the guard never
  rejects anything. A seed query that returns two records of the same author A puts A into
  the frontier twice, and the loop takes A out twice, in one batch.
\<close>

theorem C4_seed_enqueued_twice:
  "map_option (\<lambda>s. (processed s, toProcess s, next_batch s,
                     concat (batches (relay [follows ''A'' [], follows ''A'' []]) 1 s)))
     (seed (relay [follows ''A'' [], follows ''A'' []]) None 100) =
   Some ({}, [(Some ''A'', 0), (Some ''A'', 0)], [(Some ''A'', 0), (Some ''A'', 0)],
         [(Some ''A'', 0), (Some ''A'', 0)])"
  by code_simp

text \<open>
  What the loop does establish: for every fetcher, depth and seeding, the frontier loop
  ends after finitely many iterations, with an empty frontier unless a query was rejected;
  when there is a start identity, or the seed records have different authors, no identity
  is taken from the frontier twice; and the record in which A follows A, at depth 1, gives
  the single node A and the single edge from A to A.
\<close>

theorem frontier_loop_terminates:
  assumes "seed q sp limit = Some s0"
  shows "(\<exists>n. iterations n q d s0 = while_loop q d s0) \<and>
         (\<forall>t. while_loop q d s0 = Some t \<longrightarrow> toProcess t = []) \<and>
         (truthy sp \<or> distinct (map fst (toProcess s0)) \<longrightarrow>
            distinct (map fst (concat (batches q d s0)))) \<and>
         map_option (\<lambda>g. (map node_id (nodes g), map (\<lambda>l. (source l, target l)) (links g)))
           (useWebOfTrust (relay [follows ''A'' [''A'']]) (Some ''A'') 1 100 None) =
         Some ([Some ''A''], [(Some ''A'', Some ''A'')])"
proof (intro conjI impI allI)
  show "\<exists>n. iterations n q d s0 = while_loop q d s0" by (rule while_loop_iterations)
  show "toProcess t = []" if "while_loop q d s0 = Some t" for t
    using that by (rule while_loop_empties)
  show "distinct (map fst (concat (batches q d s0)))"
    if "truthy sp \<or> distinct (map fst (toProcess s0))"
  proof -
    from that seed_start_distinct [OF _ assms] have "distinct (map fst (toProcess s0))" by blast
    with seed_frontier_keys [OF assms] have "frontier_ok s0" by (simp add: frontier_ok_def)
    then show ?thesis using batches_distinct by blast
  qed
  show "map_option (\<lambda>g. (map node_id (nodes g), map (\<lambda>l. (source l, target l)) (links g)))
           (useWebOfTrust (relay [follows ''A'' [''A'']]) (Some ''A'') 1 100 None) =
         Some ([Some ''A''], [(Some ''A'', Some ''A'')])"
    unfolding self_loop_run by (simp add: self_loop_snapshot_def)
qed

definition self_loop_seed :: collector where
  "self_loop_seed =
     \<lparr>nodesMap = [(Some ''A'', \<lparr>node_id = Some ''A'', val = 10, inDegree = 0, outDegree = 0,
                     isHub = False, cluster = None, degreesFromRoot = None\<rparr>)],
      linksMap = [], processed = {}, toProcess = [(Some ''A'', 0)], queries = 0\<rparr>"

lemma self_loop_seeding:
  "seed (relay [follows ''A'' [''A'']]) (Some ''A'') 100 = Some self_loop_seed"
  by code_simp

theorem frontier_loop_terminates_scenario_c:
  "seed (relay [follows ''A'' [''A'']]) (Some ''A'') 100 = Some self_loop_seed \<and>
   (\<exists>n. iterations n (relay [follows ''A'' [''A'']]) 1 self_loop_seed =
         while_loop (relay [follows ''A'' [''A'']]) 1 self_loop_seed) \<and>
   truthy (Some ''A'') \<and>
   distinct (map fst (concat (batches (relay [follows ''A'' [''A'']]) 1 self_loop_seed))) \<and>
   while_loop (relay [follows ''A'' [''A'']]) 1 self_loop_seed = Some self_loop_collected \<and>
   toProcess self_loop_collected = []"
proof -
  have run: "while_loop (relay [follows ''A'' [''A'']]) 1 self_loop_seed = Some self_loop_collected"
    by code_simp
  have start: "truthy (Some ''A'')" by simp
  from frontier_loop_terminates [OF self_loop_seeding, of 1] run start self_loop_seeding
  show ?thesis by blast
qed

section \<open>Clustering\<close>

text \<open>
  The invariant of the clustering pass over nodes with the identities \<open>ids\<close>: the visited
  identities are those of the positions written so far, no position is written twice, each
  written node carries the label written, and the labels written never decrease and do not
  exceed the counter.
\<close>

definition cl_inv :: "pubkey list \<Rightarrow> clustering \<Rightarrow> bool" where
  "cl_inv ids st \<longleftrightarrow>
     map node_id (c_nodes st) = ids \<and>
     distinct (map fst (assigned st)) \<and>
     fst ` set (assigned st) \<subseteq> {0..<length ids} \<and>
     c_visited st = (\<lambda>i. ids ! i) ` fst ` set (assigned st) \<and>
     (\<forall>e\<in>set (assigned st). cluster (c_nodes st ! fst e) = Some (snd e)) \<and>
     (\<forall>e\<in>set (assigned st). snd e \<le> c_clusterId st) \<and>
     sorted (map snd (assigned st))"

text \<open>\<open>st'\<close> continues \<open>st\<close> under the same label.\<close>

definition cl_ext :: "clustering \<Rightarrow> clustering \<Rightarrow> bool" where
  "cl_ext st st' \<longleftrightarrow>
     c_clusterId st' = c_clusterId st \<and>
     (\<exists>new. assigned st' = assigned st @ new \<and> (\<forall>e\<in>set new. snd e = c_clusterId st))"

lemma cl_ext_refl: "cl_ext st st"
  by (simp add: cl_ext_def)

lemma cl_ext_trans:
  assumes "cl_ext st st1" and "cl_ext st1 st2"
  shows "cl_ext st st2"
proof -
  from assms(1) obtain n1 where n1: "c_clusterId st1 = c_clusterId st"
      "assigned st1 = assigned st @ n1" "\<forall>e\<in>set n1. snd e = c_clusterId st"
    by (auto simp: cl_ext_def)
  from assms(2) obtain n2 where n2: "c_clusterId st2 = c_clusterId st1"
      "assigned st2 = assigned st1 @ n2" "\<forall>e\<in>set n2. snd e = c_clusterId st1"
    by (auto simp: cl_ext_def)
  have "assigned st2 = assigned st @ (n1 @ n2)" by (simp add: n1(2) n2(2))
  moreover have "\<forall>e\<in>set (n1 @ n2). snd e = c_clusterId st"
    using n1(1,3) n2(3) by auto
  ultimately show ?thesis unfolding cl_ext_def using n1(1) n2(1) by metis
qed

lemma cl_inv_queue [simp]: "cl_inv ids (st\<lparr>c_queue := qu\<rparr>) = cl_inv ids st"
  by (simp add: cl_inv_def)

lemma cl_ext_queue [simp]: "cl_ext st0 (st\<lparr>c_queue := qu\<rparr>) = cl_ext st0 st"
  by (simp add: cl_ext_def)

lemma find_node_Some:
  "find_node ns k = Some i \<Longrightarrow> i < length ns \<and> node_id (ns ! i) = k"
  by (induction ns arbitrary: i) (auto split: if_splits)

lemma set_cluster_inv:
  assumes inv: "cl_inv ids st" and i: "i < length ids" and new: "ids ! i \<notin> c_visited st"
  defines "st' \<equiv> set_cluster i (st\<lparr>c_visited := insert (ids ! i) (c_visited st)\<rparr>)"
  shows "cl_inv ids st' \<and> cl_ext st st'"
proof -
  let ?c = "c_clusterId st"
  let ?ns = "c_nodes st"
  from inv have ids: "map node_id ?ns = ids"
    and d: "distinct (map fst (assigned st))"
    and rng: "fst ` set (assigned st) \<subseteq> {0..<length ids}"
    and vis: "c_visited st = (\<lambda>i. ids ! i) ` fst ` set (assigned st)"
    and lab: "\<forall>e\<in>set (assigned st). cluster (?ns ! fst e) = Some (snd e)"
    and le: "\<forall>e\<in>set (assigned st). snd e \<le> ?c"
    and srt: "sorted (map snd (assigned st))"
    by (simp_all add: cl_inv_def)
  have len: "length ?ns = length ids" using ids by (metis length_map)
  have fresh: "i \<notin> fst ` set (assigned st)" using new vis by blast
  have nodes': "c_nodes st' = ?ns[i := (?ns ! i)\<lparr>cluster := Some ?c\<rparr>]"
    and asg': "assigned st' = assigned st @ [(i, ?c)]"
    and vis': "c_visited st' = insert (ids ! i) (c_visited st)"
    and cid': "c_clusterId st' = ?c"
    by (simp_all add: st'_def set_cluster_def)
  have 1: "map node_id (c_nodes st') = ids"
    using set_cluster_frame [where p = node_id, of i "st\<lparr>c_visited := insert (ids ! i) (c_visited st)\<rparr>"]
      ids by (simp add: st'_def)
  have 2: "distinct (map fst (assigned st'))" using d fresh by (simp add: asg')
  have 3: "fst ` set (assigned st') \<subseteq> {0..<length ids}" using rng i by (simp add: asg')
  have 4: "c_visited st' = (\<lambda>i. ids ! i) ` fst ` set (assigned st')"
    by (simp add: vis' asg' vis)
  have 5: "\<forall>e\<in>set (assigned st'). cluster (c_nodes st' ! fst e) = Some (snd e)"
  proof
    fix e assume "e \<in> set (assigned st')"
    then consider "e \<in> set (assigned st)" | "e = (i, ?c)" by (auto simp: asg')
    then show "cluster (c_nodes st' ! fst e) = Some (snd e)"
    proof cases
      case 1
      with fresh have "fst e \<noteq> i" by force
      with 1 lab show ?thesis by (simp add: nodes')
    next
      case 2
      with i len show ?thesis by (simp add: nodes')
    qed
  qed
  have 6: "\<forall>e\<in>set (assigned st'). snd e \<le> c_clusterId st'"
    using le by (auto simp: asg' cid')
  have 7: "sorted (map snd (assigned st'))"
    using srt le by (auto simp: asg' sorted_append)
  have "cl_ext st st'" by (simp add: cl_ext_def asg' cid')
  with 1 2 3 4 5 6 7 show ?thesis by (simp add: cl_inv_def)
qed

lemma visit_neighbor_inv:
  assumes "cl_inv ids st"
  shows "cl_inv ids (visit_neighbor k st) \<and> cl_ext st (visit_neighbor k st)"
proof (cases "find_node (c_nodes st) k")
  case None
  with assms show ?thesis by (simp add: visit_neighbor_def cl_ext_refl)
next
  case (Some i)
  from assms have ids: "map node_id (c_nodes st) = ids" by (simp add: cl_inv_def)
  from find_node_Some [OF Some] have i: "i < length (c_nodes st)" "node_id (c_nodes st ! i) = k"
    by simp_all
  from i ids have i': "i < length ids" "ids ! i = k" by auto
  show ?thesis
  proof (cases "k \<in> c_visited st")
    case True
    with Some assms show ?thesis by (simp add: visit_neighbor_def cl_ext_refl)
  next
    case False
    with i' have "ids ! i \<notin> c_visited st" by simp
    from set_cluster_inv [OF assms i'(1) this] Some False i'(2)
    show ?thesis by (simp add: visit_neighbor_def)
  qed
qed

lemma fold_visit_neighbor_inv:
  "cl_inv ids st \<Longrightarrow>
   cl_inv ids (fold visit_neighbor ks st) \<and> cl_ext st (fold visit_neighbor ks st)"
proof (induction ks arbitrary: st)
  case Nil
  then show ?case by (simp add: cl_ext_refl)
next
  case (Cons k ks)
  from visit_neighbor_inv [OF Cons.prems, of k]
  have 1: "cl_inv ids (visit_neighbor k st)" "cl_ext st (visit_neighbor k st)" by simp_all
  from Cons.IH [OF 1(1)] cl_ext_trans [OF 1(2)] show ?case by simp
qed

lemma for_batch_inv:
  "cl_inv ids st \<Longrightarrow> cl_inv ids (for_batch adj n st) \<and> cl_ext st (for_batch adj n st)"
proof (induction n arbitrary: st)
  case 0
  then show ?case by (simp add: cl_ext_refl)
next
  case (Suc n)
  let ?cur = "case c_queue st of [] \<Rightarrow> None | x # _ \<Rightarrow> x"
  let ?st1 = "st\<lparr>c_queue := tl (c_queue st)\<rparr>"
  let ?st2 = "fold visit_neighbor (neighbors_of adj ?cur) ?st1"
  from Suc.prems have "cl_inv ids ?st1" by simp
  from fold_visit_neighbor_inv [OF this, of "neighbors_of adj ?cur"]
  have 2: "cl_inv ids ?st2" "cl_ext ?st1 ?st2" by simp_all
  have "cl_ext st ?st1" by (simp add: cl_ext_def)
  from cl_ext_trans [OF this 2(2)] have e2: "cl_ext st ?st2" .
  from Suc.IH [OF 2(1)] cl_ext_trans [OF e2] show ?case by (simp add: Let_def)
qed

lemma cluster_bfs_inv:
  "cl_inv ids st \<Longrightarrow>
   cl_inv ids (cluster_bfs adj depth st) \<and> cl_ext st (cluster_bfs adj depth st)"
proof (induction adj depth st rule: cluster_bfs.induct)
  case (1 adj depth st)
  show ?case
  proof (cases "c_queue st \<noteq> [] \<and> depth < 2")
    case True
    let ?st1 = "for_batch adj (length (c_queue st)) st"
    have eq: "cluster_bfs adj depth st = cluster_bfs adj (depth + 1) ?st1"
      using True by (subst cluster_bfs.simps) simp
    from for_batch_inv [OF "1.prems"] have 1: "cl_inv ids ?st1" "cl_ext st ?st1" by simp_all
    from "1.IH" [OF True 1(1)] cl_ext_trans [OF 1(2)] show ?thesis by (simp add: eq)
  next
    case False
    then have "cluster_bfs adj depth st = st" by (subst cluster_bfs.simps) auto
    with "1.prems" show ?thesis by (simp add: cl_ext_refl)
  qed
qed


text \<open>
  Between two steps of the outer loop: the labels written are exactly those below the
  counter, and the first \<open>k\<close> positions are written.
\<close>

definition cl_outer :: "pubkey list \<Rightarrow> nat \<Rightarrow> clustering \<Rightarrow> bool" where
  "cl_outer ids k st \<longleftrightarrow>
     cl_inv ids st \<and> snd ` set (assigned st) = {0..<c_clusterId st} \<and>
     {0..<k} \<subseteq> fst ` set (assigned st)"

lemma upto_Suc_subset: "k \<in> S \<Longrightarrow> {0..<k} \<subseteq> S \<Longrightarrow> {0..<Suc k} \<subseteq> S"
  by (simp only: atLeast0_lessThan_Suc insert_subset simp_thms)

lemma set_cluster_queue:
  "set_cluster i (st\<lparr>c_queue := qu\<rparr>) = (set_cluster i st)\<lparr>c_queue := qu\<rparr>"
  by (simp add: set_cluster_def)

lemma cl_inv_bump:
  "cl_inv ids st \<Longrightarrow> cl_inv ids (st\<lparr>c_clusterId := c_clusterId st + 1\<rparr>)"
  by (auto simp: cl_inv_def)

lemma cluster_node_outer:
  assumes dist: "distinct ids" and out: "cl_outer ids k st" and k: "k < length ids"
  shows "cl_outer ids (Suc k) (cluster_node adj k st)"
proof -
  from out have inv: "cl_inv ids st"
    and labels: "snd ` set (assigned st) = {0..<c_clusterId st}"
    and cov: "{0..<k} \<subseteq> fst ` set (assigned st)"
    by (simp_all add: cl_outer_def)
  from inv have ids: "map node_id (c_nodes st) = ids"
    and rng: "fst ` set (assigned st) \<subseteq> {0..<length ids}"
    and vis: "c_visited st = (\<lambda>i. ids ! i) ` fst ` set (assigned st)"
    by (simp_all add: cl_inv_def)
  from ids k have idk: "node_id (c_nodes st ! k) = ids ! k" by auto
  show ?thesis
  proof (cases "ids ! k \<in> c_visited st")
    case True
    then have "ids ! k \<in> (\<lambda>i. ids ! i) ` fst ` set (assigned st)"
      by (simp only: vis)
    then obtain j where j: "j \<in> fst ` set (assigned st)" "ids ! j = ids ! k"
      by (elim imageE) (metis imageI)
    from j(1) rng have "j < length ids" by auto
    with j(2) k dist have "j = k" by (simp add: nth_eq_iff_index_eq)
    with j(1) have "k \<in> fst ` set (assigned st)" by simp
    then have "{0..<Suc k} \<subseteq> fst ` set (assigned st)"
      using cov by (rule upto_Suc_subset)
    moreover have "cluster_node adj k st = st"
      using True idk by (simp add: cluster_node_def)
    ultimately show ?thesis using inv labels by (simp add: cl_outer_def)
  next
    case False
    let ?c = "c_clusterId st"
    let ?st1 = "set_cluster k (st\<lparr>c_visited := insert (ids ! k) (c_visited st)\<rparr>)"
    let ?st1q = "?st1\<lparr>c_queue := [ids ! k]\<rparr>"
    let ?st2 = "cluster_bfs adj 0 ?st1q"
    from set_cluster_inv [OF inv k False] have 1: "cl_inv ids ?st1" "cl_ext st ?st1"
      by simp_all
    then have s1q: "cl_inv ids ?st1q" "cl_ext st ?st1q" by simp_all
    from cluster_bfs_inv [OF s1q(1), of adj 0] have 2: "cl_inv ids ?st2" "cl_ext ?st1q ?st2"
      by simp_all
    have eq1: "set_cluster k (st\<lparr>c_queue := [ids ! k],
                   c_visited := insert (ids ! k) (c_visited st)\<rparr>) = ?st1q"
      by (simp add: set_cluster_def)
    have res: "cluster_node adj k st = ?st2\<lparr>c_clusterId := c_clusterId ?st2 + 1\<rparr>"
      using False idk by (simp add: cluster_node_def Let_def eq1)
    from 2(2) obtain new where new: "c_clusterId ?st2 = c_clusterId ?st1q"
        "assigned ?st2 = assigned ?st1q @ new" "\<forall>e\<in>set new. snd e = c_clusterId ?st1q"
      by (auto simp: cl_ext_def)
    have c1: "c_clusterId ?st1q = ?c" and a1: "assigned ?st1q = assigned st @ [(k, ?c)]"
      by (simp_all add: set_cluster_def)
    have a2: "assigned ?st2 = assigned st @ (k, ?c) # new" by (simp add: new(2) a1)
    have c2: "c_clusterId ?st2 = ?c" by (simp add: new(1) c1)
    have "snd ` set ((k, ?c) # new) = {?c}" using new(3) c1 by auto
    then have "snd ` set (assigned ?st2) = {0..<?c} \<union> {?c}"
      unfolding a2 set_append image_Un labels by (rule arg_cong)
    then have lab2: "snd ` set (assigned ?st2) = {0..<Suc ?c}"
      by (simp add: atLeast0_lessThan_Suc)
    have "k \<in> fst ` set (assigned ?st2)" unfolding a2 by simp
    moreover have "fst ` set (assigned st) \<subseteq> fst ` set (assigned ?st2)"
      unfolding a2 set_append image_Un by (rule Un_upper1)
    with cov have "{0..<k} \<subseteq> fst ` set (assigned ?st2)" by (rule order_trans)
    ultimately have cov2: "{0..<Suc k} \<subseteq> fst ` set (assigned ?st2)"
      by (rule upto_Suc_subset)
    have "cl_inv ids (?st2\<lparr>c_clusterId := c_clusterId ?st2 + 1\<rparr>)"
      by (rule cl_inv_bump [OF 2(1)])
    with lab2 cov2 c2 show ?thesis
      unfolding res cl_outer_def by simp
  qed
qed

lemma fold_cluster_node_outer:
  assumes "distinct ids" and "cl_outer ids 0 st"
  shows "n \<le> length ids \<Longrightarrow> cl_outer ids n (fold (cluster_node adj) [0..<n] st)"
proof (induction n)
  case 0
  with assms(2) show ?case by simp
next
  case (Suc n)
  then have "cl_outer ids n (fold (cluster_node adj) [0..<n] st)" by simp
  from cluster_node_outer [OF assms(1) this] Suc.prems show ?case by simp
qed

lemma assignClusters_run_correct:
  fixes ns :: "GraphNode list" and ls :: "GraphLink list"
  assumes "distinct (map node_id ns)"
  defines "st \<equiv> assignClusters_run ns ls"
  shows "map node_id (c_nodes st) = map node_id ns"
    and "\<forall>n\<in>set (c_nodes st). cluster n \<noteq> None"
    and "distinct (map fst (assigned st))"
    and "fst ` set (assigned st) = {0..<length ns}"
    and "\<forall>e\<in>set (assigned st). cluster (c_nodes st ! fst e) = Some (snd e)"
    and "sorted (map snd (assigned st))"
    and "snd ` set (assigned st) = {0..<c_clusterId st}"
proof -
  let ?ids = "map node_id ns"
  let ?st0 = "\<lparr>c_nodes = ns, c_visited = {}, c_clusterId = 0, c_queue = [], assigned = []\<rparr>"
  have "cl_outer ?ids 0 ?st0" by (simp add: cl_outer_def cl_inv_def)
  from fold_cluster_node_outer [OF assms(1) this, of "length ns" "build_adjacency ns ls"]
  have out: "cl_outer ?ids (length ns) st"
    by (simp add: st_def assignClusters_run_def)
  then have inv: "cl_inv ?ids st" and cov: "{0..<length ns} \<subseteq> fst ` set (assigned st)"
    by (simp_all add: cl_outer_def)
  from inv show ids: "map node_id (c_nodes st) = map node_id ns"
    and "distinct (map fst (assigned st))"
    and lab: "\<forall>e\<in>set (assigned st). cluster (c_nodes st ! fst e) = Some (snd e)"
    and "sorted (map snd (assigned st))"
    by (simp_all add: cl_inv_def)
  from inv have "fst ` set (assigned st) \<subseteq> {0..<length ns}" by (simp add: cl_inv_def)
  with cov show idx: "fst ` set (assigned st) = {0..<length ns}" by blast
  from out show "snd ` set (assigned st) = {0..<c_clusterId st}" by (simp add: cl_outer_def)
  have len: "length (c_nodes st) = length ns" using ids by (metis length_map)
  show "\<forall>n\<in>set (c_nodes st). cluster n \<noteq> None"
  proof
    fix n assume "n \<in> set (c_nodes st)"
    then obtain i where i: "i < length (c_nodes st)" "n = c_nodes st ! i"
      by (auto simp: in_set_conv_nth)
    with len idx have "i \<in> fst ` set (assigned st)" by simp
    then obtain e where "e \<in> set (assigned st)" "fst e = i" by auto
    with lab i(2) show "cluster n \<noteq> None" by auto
  qed
qed


lemma hub_node_ids:
  assumes "collect q sp d limit = Some t"
  shows "map node_id (detect_hubs (Map_values (nodesMap (degrees t)))) = map fst (nodesMap t)"
proof -
  have "map node_id (detect_hubs (Map_values (nodesMap (degrees t)))) =
        map (fst \<circ> snd) (map (\<lambda>e. (fst e, node_id (snd e), val (snd e))) (nodesMap (degrees t)))"
    by (simp add: detect_hubs_def Let_def update_hub_node_id comp_def)
  also have "\<dots> = map (fst \<circ> snd) (map (\<lambda>e. (fst e, node_id (snd e), val (snd e))) (nodesMap t))"
    by (simp only: degrees_nodes)
  also have "\<dots> = map (\<lambda>e. node_id (snd e)) (nodesMap t)"
    by (simp add: comp_def)
  also have "\<dots> = map fst (nodesMap t)"
    using collect_graph_ok [OF assms] by (simp add: graph_ok_def)
  finally show ?thesis .
qed

section \<open>Distances from the reference identity\<close>

text \<open>
  The identities reached from \<open>r\<close> by a walk of exactly \<open>k\<close> steps, when \<open>nb u\<close> lists
  the neighbours of \<open>u\<close>; and the neighbours of an identity over the links taken as
  undirected.
\<close>

primrec reach :: "(pubkey \<Rightarrow> pubkey list) \<Rightarrow> pubkey \<Rightarrow> nat \<Rightarrow> pubkey set" where
  "reach nb r 0 = {r}"
| "reach nb r (Suc k) = (\<Union>u\<in>reach nb r k. set (nb u))"

definition link_neighbours :: "GraphLink list \<Rightarrow> pubkey \<Rightarrow> pubkey list" where
  "link_neighbours ls u =
     map target (filter (\<lambda>l. source l = u) ls) @ map source (filter (\<lambda>l. target l = u) ls)"

definition hops :: "GraphLink list \<Rightarrow> pubkey \<Rightarrow> nat \<Rightarrow> pubkey set" where
  "hops ls r k = reach (link_neighbours ls) r k"

lemma reach_cong:
  "(\<And>u. set (nb u) = set (nb' u)) \<Longrightarrow> reach nb r k = reach nb' r k"
  by (induction k) simp_all

text \<open>The effect of the loop over the neighbours of the entry taken from the queue.\<close>

lemma fold_visit_distance:
  "\<exists>new. snd (fold (visit_distance du) vs st) = snd st @ new \<and>
         (\<forall>e\<in>set new. snd e = du + 1 \<and> fst st (fst e) = None \<and> fst e \<in> set vs) \<and>
         (\<forall>x\<in>set vs. fst st x = None \<longrightarrow> x \<in> fst ` set new) \<and>
         (\<forall>x. fst (fold (visit_distance du) vs st) x =
               (case fst st x of Some dx \<Rightarrow> Some dx
                | None \<Rightarrow> if x \<in> set vs then Some (du + 1) else None))"
proof (induction vs arbitrary: st)
  case Nil
  show ?case by (auto split: option.splits)
next
  case (Cons v vs)
  let ?st1 = "visit_distance du v st"
  from Cons.IH [of ?st1] obtain new where new:
    "snd (fold (visit_distance du) vs ?st1) = snd ?st1 @ new"
    "\<forall>e\<in>set new. snd e = du + 1 \<and> fst ?st1 (fst e) = None \<and> fst e \<in> set vs"
    "\<forall>x. fst (fold (visit_distance du) vs ?st1) x =
               (case fst ?st1 x of Some dx \<Rightarrow> Some dx
                | None \<Rightarrow> if x \<in> set vs then Some (du + 1) else None)"
    and conv: "\<forall>x\<in>set vs. fst ?st1 x = None \<longrightarrow> x \<in> fst ` set new"
    by blast
  show ?case
  proof (cases "fst st v")
    case None
    then have st1: "fst ?st1 = (fst st)(v \<mapsto> du + 1)" "snd ?st1 = snd st @ [(v, du + 1)]"
      by (simp_all add: visit_distance_def)
    have "snd (fold (visit_distance du) (v # vs) st) = snd st @ ((v, du + 1) # new)"
      by (simp add: new(1) st1(2))
    moreover have "\<forall>e\<in>set ((v, du + 1) # new).
        snd e = du + 1 \<and> fst st (fst e) = None \<and> fst e \<in> set (v # vs)"
      using new(2) None by (auto simp: st1(1) split: if_splits)
    moreover have "\<forall>x\<in>set (v # vs). fst st x = None \<longrightarrow> x \<in> fst ` set ((v, du + 1) # new)"
      using conv by (auto simp: st1(1) split: if_splits)
    moreover have "\<forall>x. fst (fold (visit_distance du) (v # vs) st) x =
               (case fst st x of Some dx \<Rightarrow> Some dx
                | None \<Rightarrow> if x \<in> set (v # vs) then Some (du + 1) else None)"
    proof
      fix x
      from new(3) have "fst (fold (visit_distance du) vs ?st1) x =
               (case fst ?st1 x of Some dx \<Rightarrow> Some dx
                | None \<Rightarrow> if x \<in> set vs then Some (du + 1) else None)" by blast
      with None show "fst (fold (visit_distance du) (v # vs) st) x =
               (case fst st x of Some dx \<Rightarrow> Some dx
                | None \<Rightarrow> if x \<in> set (v # vs) then Some (du + 1) else None)"
        by (cases "x = v") (auto simp: st1(1) split: option.splits)
    qed
    ultimately show ?thesis by blast
  next
    case (Some dv)
    then have st1: "?st1 = st" by (simp add: visit_distance_def)
    have "snd (fold (visit_distance du) (v # vs) st) = snd st @ new"
      using new(1) by (simp add: st1)
    moreover have "\<forall>e\<in>set new.
        snd e = du + 1 \<and> fst st (fst e) = None \<and> fst e \<in> set (v # vs)"
      using new(2) by (simp add: st1)
    moreover have "\<forall>x\<in>set (v # vs). fst st x = None \<longrightarrow> x \<in> fst ` set new"
      using conv Some by (auto simp: st1)
    moreover have "\<forall>x. fst (fold (visit_distance du) (v # vs) st) x =
               (case fst st x of Some dx \<Rightarrow> Some dx
                | None \<Rightarrow> if x \<in> set (v # vs) then Some (du + 1) else None)"
    proof
      fix x
      from new(3) have "fst (fold (visit_distance du) vs ?st1) x =
               (case fst ?st1 x of Some dx \<Rightarrow> Some dx
                | None \<Rightarrow> if x \<in> set vs then Some (du + 1) else None)" by blast
      with Some show "fst (fold (visit_distance du) (v # vs) st) x =
               (case fst st x of Some dx \<Rightarrow> Some dx
                | None \<Rightarrow> if x \<in> set (v # vs) then Some (du + 1) else None)"
        by (cases "x = v") (auto simp: st1 split: option.splits)
    qed
    ultimately show ?thesis by blast
  qed
qed

text \<open>
  The invariant of the loop: the reference has distance 0; a queued entry carries the
  distance recorded for it; the queued distances are sorted and within one of the first;
  a recorded distance is the length of some walk; and an identity that has been taken
  from the queue has all its neighbours recorded, none more than one further, and is not
  further than any queued entry.
\<close>

definition bfs_inv :: "(pubkey \<Rightarrow> pubkey list) \<Rightarrow> pubkey \<Rightarrow> bfs_state \<Rightarrow> bool" where
  "bfs_inv nb r st \<longleftrightarrow>
     fst st r = Some 0 \<and>
     (\<forall>e\<in>set (snd st). fst st (fst e) = Some (snd e)) \<and>
     sorted (map snd (snd st)) \<and>
     (\<forall>e\<in>set (snd st). snd e \<le> snd (hd (snd st)) + 1) \<and>
     (\<forall>v k. fst st v = Some k \<longrightarrow> v \<in> reach nb r k) \<and>
     (\<forall>u du. fst st u = Some du \<and> u \<notin> fst ` set (snd st) \<longrightarrow>
        (\<forall>v\<in>set (nb u). \<exists>dv. fst st v = Some dv \<and> dv \<le> du + 1) \<and>
        (\<forall>e\<in>set (snd st). du \<le> snd e))"


lemma sorted_constant: "\<forall>e\<in>set xs. f e = (c::nat) \<Longrightarrow> sorted (map f xs)"
  by (induction xs) auto

lemma bfs_step_inv:
  assumes inv: "bfs_inv nb r (D, (u, du) # rest)" and vs: "set vs = set (nb u)"
  shows "bfs_inv nb r (fold (visit_distance du) vs (D, rest))"
proof -
  obtain D' Q' where res: "fold (visit_distance du) vs (D, rest) = (D', Q')"
    by (cases "fold (visit_distance du) vs (D, rest)")
  from fold_visit_distance [of du vs "(D, rest)"] res obtain new where
    Q': "Q' = rest @ new"
    and new: "\<forall>e\<in>set new. snd e = du + 1 \<and> D (fst e) = None \<and> fst e \<in> set vs"
    and conv: "\<forall>x\<in>set vs. D x = None \<longrightarrow> x \<in> fst ` set new"
    and D': "\<forall>x. D' x = (case D x of Some dx \<Rightarrow> Some dx
                        | None \<Rightarrow> if x \<in> set vs then Some (du + 1) else None)"
    by auto
  from inv have i1: "D r = Some 0"
    and i2: "\<forall>e\<in>set ((u, du) # rest). D (fst e) = Some (snd e)"
    and i3: "sorted (du # map snd rest)"
    and i4: "\<forall>e\<in>set ((u, du) # rest). snd e \<le> du + 1"
    and i5: "\<forall>v k. D v = Some k \<longrightarrow> v \<in> reach nb r k"
    and i6: "\<forall>x dx. D x = Some dx \<and> x \<notin> fst ` set ((u, du) # rest) \<longrightarrow>
        (\<forall>v\<in>set (nb x). \<exists>dv. D v = Some dv \<and> dv \<le> dx + 1) \<and>
        (\<forall>e\<in>set ((u, du) # rest). dx \<le> snd e)"
    by (simp_all add: bfs_inv_def)
  have keep: "D' x = Some dx" if "D x = Some dx" for x dx
    using D' that by simp
  have Du: "D u = Some du" using i2 by simp
  have lo: "du \<le> snd e" if "e \<in> set Q'" for e
  proof -
    from that Q' consider "e \<in> set rest" | "e \<in> set new" by auto
    then show ?thesis
    proof cases
      case 1 with i3 show ?thesis by auto
    next
      case 2 with new show ?thesis by auto
    qed
  qed
  have hi: "snd e \<le> du + 1" if "e \<in> set Q'" for e
  proof -
    from that Q' consider "e \<in> set rest" | "e \<in> set new" by auto
    then show ?thesis
    proof cases
      case 1 with i4 show ?thesis by auto
    next
      case 2 with new show ?thesis by auto
    qed
  qed
  have g1: "D' r = Some 0" using i1 by (rule keep)
  have g2: "\<forall>e\<in>set Q'. D' (fst e) = Some (snd e)"
  proof
    fix e assume "e \<in> set Q'"
    with Q' consider "e \<in> set rest" | "e \<in> set new" by auto
    then show "D' (fst e) = Some (snd e)"
    proof cases
      case 1
      with i2 have "D (fst e) = Some (snd e)" by simp
      then show ?thesis by (rule keep)
    next
      case 2
      with new have "snd e = du + 1" "D (fst e) = None" "fst e \<in> set vs" by auto
      with D' show ?thesis by simp
    qed
  qed
  have g3: "sorted (map snd Q')"
  proof -
    have "sorted (map snd rest)" using i3 by simp
    moreover have "sorted (map snd new)" using new by (intro sorted_constant [of _ _ "du + 1"]) simp
    moreover have "\<forall>x\<in>set rest. \<forall>y\<in>set new. snd x \<le> snd y"
      using i4 new by auto
    ultimately show ?thesis by (simp add: Q' sorted_append)
  qed
  have g4: "\<forall>e\<in>set Q'. snd e \<le> snd (hd Q') + 1"
  proof
    fix e assume e: "e \<in> set Q'"
    then have "Q' \<noteq> []" by auto
    then have "hd Q' \<in> set Q'" by simp
    from lo [OF this] hi [OF e] show "snd e \<le> snd (hd Q') + 1" by simp
  qed
  have g5: "\<forall>v k. D' v = Some k \<longrightarrow> v \<in> reach nb r k"
  proof (intro allI impI)
    fix v k assume vk: "D' v = Some k"
    show "v \<in> reach nb r k"
    proof (cases "D v")
      case (Some dv)
      with keep [OF Some] vk i5 show ?thesis by simp
    next
      case None
      with D' vk have v: "v \<in> set vs" "k = Suc du" by (auto split: if_splits)
      from i5 Du have "u \<in> reach nb r du" by blast
      with v vs show ?thesis by auto
    qed
  qed
  have g6: "\<forall>x dx. D' x = Some dx \<and> x \<notin> fst ` set Q' \<longrightarrow>
        (\<forall>v\<in>set (nb x). \<exists>dv. D' v = Some dv \<and> dv \<le> dx + 1) \<and>
        (\<forall>e\<in>set Q'. dx \<le> snd e)"
  proof (intro allI impI)
    fix x dx assume a: "D' x = Some dx \<and> x \<notin> fst ` set Q'"
    then have x': "D' x = Some dx" and xq: "x \<notin> fst ` set rest" "x \<notin> fst ` set new"
      by (simp_all add: Q' image_Un)
    have Dx: "D x = Some dx"
    proof (cases "D x")
      case None
      with D' x' have "x \<in> set vs" by (auto split: if_splits)
      with conv None xq(2) show ?thesis by blast
    next
      case (Some d0)
      with keep [OF Some] x' show ?thesis by simp
    qed
    show "(\<forall>v\<in>set (nb x). \<exists>dv. D' v = Some dv \<and> dv \<le> dx + 1) \<and>
        (\<forall>e\<in>set Q'. dx \<le> snd e)"
    proof (cases "x = u")
      case False
      with xq(1) have "x \<notin> fst ` set ((u, du) # rest)" by simp
      with i6 Dx have old: "\<forall>v\<in>set (nb x). \<exists>dv. D v = Some dv \<and> dv \<le> dx + 1"
        and le: "\<forall>e\<in>set ((u, du) # rest). dx \<le> snd e" by blast+
      from le have "dx \<le> du" by simp
      with lo have "\<forall>e\<in>set Q'. dx \<le> snd e" using le_trans by blast
      moreover from old keep have "\<forall>v\<in>set (nb x). \<exists>dv. D' v = Some dv \<and> dv \<le> dx + 1"
        by blast
      ultimately show ?thesis by blast
    next
      case True
      with Dx Du have dx: "dx = du" by simp
      have "\<exists>dv. D' v = Some dv \<and> dv \<le> du + 1" if v: "v \<in> set (nb u)" for v
      proof (cases "D v")
        case None
        with D' v vs have "D' v = Some (du + 1)" by simp
        then show ?thesis by simp
      next
        case (Some dv)
        have "dv \<le> du + 1"
        proof (cases "v \<in> fst ` set ((u, du) # rest)")
          case True
          then obtain e where e: "e \<in> set ((u, du) # rest)" "fst e = v" by (metis imageE)
          with i2 have "D v = Some (snd e)" by auto
          with Some have "dv = snd e" by simp
          with i4 e(1) show ?thesis by auto
        next
          case False
          with i6 Some have "\<forall>e\<in>set ((u, du) # rest). dv \<le> snd e" by blast
          then show ?thesis by simp
        qed
        with keep [OF Some] show ?thesis by simp
      qed
      moreover have "\<forall>e\<in>set Q'. du \<le> snd e" using lo by blast
      ultimately show ?thesis using True dx by simp
    qed
  qed
  from g1 g2 g3 g4 g5 g6 show ?thesis
    unfolding res bfs_inv_def fst_conv snd_conv by blast
qed


lemma bfs_loop_inv:
  "bfs_inv (neighbors_of adj) r st \<Longrightarrow> bfs_inv (neighbors_of adj) r (bfs_loop adj st, [])"
proof (induction adj st rule: bfs_loop.induct)
  case (1 adj st)
  show ?case
  proof (cases "snd st")
    case Nil
    then have "bfs_loop adj st = fst st" by (simp add: bfs_loop.simps [of adj st])
    moreover from Nil have "st = (fst st, [])" by (cases st) simp
    ultimately show ?thesis using "1.prems" by simp
  next
    case (Cons current rest)
    let ?st1 = "fold (visit_distance (snd current)) (neighbors_of adj (fst current)) (fst st, rest)"
    have eq: "bfs_loop adj st = bfs_loop adj ?st1"
      using Cons by (simp add: bfs_loop.simps [of adj st])
    from Cons have "st = (fst st, (fst current, snd current) # rest)" by (cases st) simp
    with "1.prems" have "bfs_inv (neighbors_of adj) r (fst st, (fst current, snd current) # rest)"
      by simp
    then have "bfs_inv (neighbors_of adj) r ?st1"
      by (rule bfs_step_inv) simp
    from "1.IH" [OF Cons this] show ?thesis by (simp only: eq)
  qed
qed

lemma bfs_inv_start: "bfs_inv nb r (Map.empty(r \<mapsto> 0), [(r, 0)])"
  by (auto simp: bfs_inv_def split: if_splits)

lemma bfs_loop_correct:
  fixes adj :: adjacency and r :: pubkey
  defines "D \<equiv> bfs_loop adj (Map.empty(r \<mapsto> 0), [(r, 0)])"
  shows "D v = Some k \<longleftrightarrow>
         v \<in> reach (neighbors_of adj) r k \<and> (\<forall>j<k. v \<notin> reach (neighbors_of adj) r j)"
proof -
  let ?nb = "neighbors_of adj"
  have "bfs_inv ?nb r (D, [])"
    unfolding D_def by (rule bfs_loop_inv) (rule bfs_inv_start)
  then have zero: "D r = Some 0"
    and sound: "\<And>v k. D v = Some k \<Longrightarrow> v \<in> reach ?nb r k"
    and closed: "\<And>u du v. D u = Some du \<Longrightarrow> v \<in> set (?nb u) \<Longrightarrow>
                   \<exists>dv. D v = Some dv \<and> dv \<le> du + 1"
    by (simp_all add: bfs_inv_def)
  have complete: "\<exists>dv\<le>j. D v = Some dv" if "v \<in> reach ?nb r j" for v j
    using that
  proof (induction j arbitrary: v)
    case 0
    with zero show ?case by simp
  next
    case (Suc j)
    then obtain u where u: "u \<in> reach ?nb r j" "v \<in> set (?nb u)" by auto
    from Suc.IH [OF u(1)] obtain du where du: "du \<le> j" "D u = Some du" by blast
    from closed [OF du(2) u(2)] obtain dv where "D v = Some dv" "dv \<le> du + 1" by blast
    with du(1) show ?case by auto
  qed
  show ?thesis
  proof
    assume Dv: "D v = Some k"
    have "v \<notin> reach ?nb r j" if "j < k" for j
    proof
      assume "v \<in> reach ?nb r j"
      from complete [OF this] Dv that show False by auto
    qed
    with sound [OF Dv] show "v \<in> reach ?nb r k \<and> (\<forall>j<k. v \<notin> reach ?nb r j)" by blast
  next
    assume a: "v \<in> reach ?nb r k \<and> (\<forall>j<k. v \<notin> reach ?nb r j)"
    then obtain dv where dv: "dv \<le> k" "D v = Some dv" using complete by blast
    from sound [OF dv(2)] a have "\<not> dv < k" by blast
    with dv show "D v = Some k" by simp
  qed
qed

text \<open>The adjacency map: a node's set holds its neighbours over the links.\<close>

lemma set_Set_add: "set (Set_add x xs) = insert x (set xs)"
  by (auto simp: Set_add_def)

lemma adjacency_init:
  "map_of (fold (\<lambda>node adj. AList.update (node_id node) [] adj) ns adj) u =
     (if u \<in> node_id ` set ns then Some [] else map_of adj u)"
  by (induction ns arbitrary: adj) (auto simp: AList.update_conv')

lemma add_adjacent_sets:
  "map_option set (map_of (add_adjacent l adj) u) =
     map_option (\<lambda>S. S \<union> set (link_neighbours [l] u)) (map_option set (map_of adj u))"
  by (cases "map_of adj u")
    (auto simp: add_adjacent_def AList.map_of_map_entry set_Set_add link_neighbours_def)

lemma link_neighbours_Cons:
  "set (link_neighbours (l # ls) u) = set (link_neighbours [l] u) \<union> set (link_neighbours ls u)"
  by (auto simp: link_neighbours_def)

lemma fold_add_adjacent_sets:
  "map_option set (map_of (fold add_adjacent ls adj) u) =
     map_option (\<lambda>S. S \<union> set (link_neighbours ls u)) (map_option set (map_of adj u))"
proof (induction ls arbitrary: adj)
  case Nil
  show ?case by (cases "map_of adj u") (simp_all add: link_neighbours_def)
next
  case (Cons l ls)
  have "map_option set (map_of (fold add_adjacent (l # ls) adj) u) =
        map_option set (map_of (fold add_adjacent ls (add_adjacent l adj)) u)"
    by simp
  also have "\<dots> = map_option (\<lambda>S. S \<union> set (link_neighbours ls u))
                    (map_option set (map_of (add_adjacent l adj) u))"
    by (rule Cons.IH)
  also have "\<dots> = map_option (\<lambda>S. S \<union> set (link_neighbours ls u))
                    (map_option (\<lambda>S. S \<union> set (link_neighbours [l] u))
                       (map_option set (map_of adj u)))"
    by (simp only: add_adjacent_sets)
  also have "\<dots> = map_option (\<lambda>S. S \<union> set (link_neighbours (l # ls) u))
                    (map_option set (map_of adj u))"
    by (cases "map_of adj u") (simp_all add: link_neighbours_Cons [of l ls u] Un_assoc)
  finally show ?case .
qed

lemma build_adjacency_neighbours:
  "set (neighbors_of (build_adjacency ns ls) u) =
     (if u \<in> node_id ` set ns then set (link_neighbours ls u) else {})"
proof -
  let ?adj0 = "fold (\<lambda>node adj. AList.update (node_id node) [] adj) ns []"
  have "map_option set (map_of (build_adjacency ns ls) u) =
        map_option (\<lambda>S. S \<union> set (link_neighbours ls u)) (map_option set (map_of ?adj0 u))"
    unfolding build_adjacency_def by (rule fold_add_adjacent_sets)
  also have "map_of ?adj0 u = (if u \<in> node_id ` set ns then Some [] else None)"
    by (simp add: adjacency_init)
  finally show ?thesis
    by (cases "map_of (build_adjacency ns ls) u") (auto simp: neighbors_of_def split: if_splits)
qed

lemma closed_neighbours:
  assumes "\<forall>l\<in>set ls. source l \<in> node_id ` set ns \<and> target l \<in> node_id ` set ns"
  shows "set (neighbors_of (build_adjacency ns ls) u) = set (link_neighbours ls u)"
proof (cases "u \<in> node_id ` set ns")
  case True
  then show ?thesis by (simp add: build_adjacency_neighbours)
next
  case False
  with assms have "\<forall>l\<in>set ls. source l \<noteq> u \<and> target l \<noteq> u" by blast
  then have "link_neighbours ls u = []"
    by (simp add: link_neighbours_def filter_empty_conv)
  with False show ?thesis by (simp add: build_adjacency_neighbours)
qed

lemma calculateDegreesOfSeparation_correct:
  assumes "\<forall>l\<in>set ls. source l \<in> node_id ` set ns \<and> target l \<in> node_id ` set ns"
    and "n \<in> set (calculateDegreesOfSeparation ns ls r)"
  shows "degreesFromRoot n = Some k \<longleftrightarrow>
         node_id n \<in> hops ls r k \<and> (\<forall>j<k. node_id n \<notin> hops ls r j)"
proof -
  let ?adj = "build_adjacency ns ls"
  let ?D = "bfs_loop ?adj (Map.empty(r \<mapsto> 0), [(r, 0)])"
  from assms(2) have n: "degreesFromRoot n = ?D (node_id n)"
    by (auto simp: calculateDegreesOfSeparation_def Let_def)
  have "reach (neighbors_of ?adj) r j = hops ls r j" for j
    unfolding hops_def by (rule reach_cong) (rule closed_neighbours [OF assms(1)])
  with bfs_loop_correct [of ?adj r "node_id n" k] show ?thesis
    by (simp add: n)
qed


text \<open>
  C5 does not hold for every snapshot. A relay that answers the query for A with a record of
  Z, in which Z follows A and B, gives the nodes A and B and the edges from Z to A and from
  Z to B, but no node Z. B is two undirected hops from the reference A and not fewer, and
  has no \<open>degreesFromRoot\<close>: the adjacency map has an entry for nodes only, so the
  search does not go on from Z.
\<close>

theorem C5_counterexample:
  "map_option
     (\<lambda>g. map (\<lambda>n. (node_id n, degreesFromRoot n,
                      map (\<lambda>k. node_id n \<in> hops (links g) (Some ''A'') k) [0, 1, 2]))
            (nodes g))
     (useWebOfTrust (careless_relay [follows ''Z'' [''A'', ''B'']]) (Some ''A'') 1 100 (Some ''A'')) =
   Some [(Some ''A'', Some 0, [True, False, True]), (Some ''B'', None, [False, False, True])]"
  by code_simp

text \<open>
  C5, amended: when a reference identity is supplied and both ends of every edge of the
  snapshot are nodes of the snapshot (which holds whenever the fetcher answers a batch only
  with records of the authors asked for), a node has \<open>degreesFromRoot = k\<close> exactly
  when \<open>k\<close> is its undirected hop distance from the reference over the edges of the
  snapshot, it has no \<open>degreesFromRoot\<close> exactly when no walk reaches it, and the
  reference node itself has distance 0.
\<close>

theorem C5_distance_labelling:
  assumes "useWebOfTrust q sp d limit r = Some g" and "truthy r"
    and "\<forall>l\<in>set (links g). source l \<in> node_id ` set (nodes g) \<and>
                          target l \<in> node_id ` set (nodes g)"
    and "n \<in> set (nodes g)"
  shows "(degreesFromRoot n = Some k \<longleftrightarrow>
            node_id n \<in> hops (links g) r k \<and> (\<forall>j<k. node_id n \<notin> hops (links g) r j)) \<and>
         (degreesFromRoot n = None \<longleftrightarrow> (\<forall>j. node_id n \<notin> hops (links g) r j)) \<and>
         (node_id n = r \<longrightarrow> degreesFromRoot n = Some 0)"
proof -
  from assms(1) obtain t where
    ns: "nodes g =
          (if truthy r
           then calculateDegreesOfSeparation
                  (assignClusters (detect_hubs (Map_values (nodesMap (degrees t)))) (links g))
                  (links g) r
           else assignClusters (detect_hubs (Map_values (nodesMap (degrees t)))) (links g))"
    by (rule useWebOfTrust_unfold)
  let ?ns1 = "assignClusters (detect_hubs (Map_values (nodesMap (degrees t)))) (links g)"
  from ns assms(2) have g: "nodes g = calculateDegreesOfSeparation ?ns1 (links g) r" by simp
  have "map node_id (nodes g) = map node_id ?ns1"
    unfolding g by (rule calculateDegreesOfSeparation_frame) simp
  then have "set (map node_id (nodes g)) = set (map node_id ?ns1)"
    by (rule arg_cong)
  then have "node_id ` set (nodes g) = node_id ` set ?ns1"
    by (simp only: set_map)
  with assms(3) have closed:
    "\<forall>l\<in>set (links g). source l \<in> node_id ` set ?ns1 \<and> target l \<in> node_id ` set ?ns1"
    by simp
  from assms(4) have n: "n \<in> set (calculateDegreesOfSeparation ?ns1 (links g) r)"
    by (simp only: g)
  note dist = calculateDegreesOfSeparation_correct [OF closed n]
  have none: "degreesFromRoot n = None \<longleftrightarrow> (\<forall>j. node_id n \<notin> hops (links g) r j)"
  proof
    assume a: "degreesFromRoot n = None"
    show "\<forall>j. node_id n \<notin> hops (links g) r j"
    proof (rule ccontr)
      assume "\<not> (\<forall>j. node_id n \<notin> hops (links g) r j)"
      then have ex: "\<exists>j. node_id n \<in> hops (links g) r j" by blast
      define k0 where "k0 = (LEAST j. node_id n \<in> hops (links g) r j)"
      from ex have "node_id n \<in> hops (links g) r k0"
        unfolding k0_def by (rule LeastI_ex)
      moreover have "\<forall>j<k0. node_id n \<notin> hops (links g) r j"
        unfolding k0_def using not_less_Least by blast
      ultimately have "degreesFromRoot n = Some k0" using dist [of k0] by blast
      with a show False by simp
    qed
  next
    assume a: "\<forall>j. node_id n \<notin> hops (links g) r j"
    show "degreesFromRoot n = None"
    proof (cases "degreesFromRoot n")
      case None
      then show ?thesis .
    next
      case (Some k')
      with dist [of k'] a show ?thesis by blast
    qed
  qed
  have zero: "degreesFromRoot n = Some 0" if "node_id n = r"
  proof -
    from that have "node_id n \<in> hops (links g) r 0" by (simp add: hops_def)
    with dist [of 0] show ?thesis by simp
  qed
  from dist [of k] none zero show ?thesis by blast
qed

lemma scenario_a_closed:
  "\<forall>l\<in>set (links scenario_a_snapshot).
     source l \<in> node_id ` set (nodes scenario_a_snapshot) \<and>
     target l \<in> node_id ` set (nodes scenario_a_snapshot)"
  by (simp add: scenario_a_snapshot_def)

theorem C5_distance_labelling_witness:
  "useWebOfTrust (relay [follows ''A'' [''B'', ''C'']]) (Some ''A'') 1 100 (Some ''A'') =
     Some scenario_a_snapshot \<and>
   truthy (Some ''A'') \<and>
   list_all (\<lambda>l. source l \<in> node_id ` set (nodes scenario_a_snapshot) \<and>
                  target l \<in> node_id ` set (nodes scenario_a_snapshot))
     (links scenario_a_snapshot) \<and>
   nodes scenario_a_snapshot ! 1 \<in> set (nodes scenario_a_snapshot) \<and>
   node_id (nodes scenario_a_snapshot ! 1) \<in> hops (links scenario_a_snapshot) (Some ''A'') 1 \<and>
   node_id (nodes scenario_a_snapshot ! 1) \<notin> hops (links scenario_a_snapshot) (Some ''A'') 0 \<and>
   degreesFromRoot (nodes scenario_a_snapshot ! 1) = Some 1"
proof -
  let ?n = "nodes scenario_a_snapshot ! 1"
  have start: "truthy (Some ''A'')" by simp
  have mem: "?n \<in> set (nodes scenario_a_snapshot)"
    by (simp add: scenario_a_snapshot_def)
  have h1: "node_id ?n \<in> hops (links scenario_a_snapshot) (Some ''A'') 1"
    by (simp add: scenario_a_snapshot_def hops_def link_neighbours_def)
  have h0: "node_id ?n \<notin> hops (links scenario_a_snapshot) (Some ''A'') 0"
    by (simp add: scenario_a_snapshot_def hops_def)
  then have least: "\<forall>j<1. node_id ?n \<notin> hops (links scenario_a_snapshot) (Some ''A'') j"
    by simp
  from C5_distance_labelling [OF scenario_a_run start scenario_a_closed mem, of 1] h1 least
  have "degreesFromRoot ?n = Some 1" by blast
  with scenario_a_run start scenario_a_closed mem h1 h0 show ?thesis
    unfolding list_all_iff by blast
qed

section \<open>Clusters and their seeds\<close>

text \<open>
  The seed of a label in the history of the clustering pass: the position of the first
  write of that label, which is the write the outer loop makes when it starts a cluster.
\<close>

definition seed_pos :: "(nat \<times> nat) list \<Rightarrow> nat \<Rightarrow> nat" where
  "seed_pos hist c = fst (hd (filter (\<lambda>e. snd e = c) hist))"

text \<open>
  A history is well-seeded over the neighbour lists \<open>nb\<close> when the seed of every label
  carries that label, every node is within two steps of the seed of its label and not at
  an earlier position than the seed, and every node at an earlier position than a seed has
  a smaller label than the seed.
\<close>

definition seeded :: "(pubkey \<Rightarrow> pubkey list) \<Rightarrow> pubkey list \<Rightarrow> (nat \<times> nat) list \<Rightarrow> bool" where
  "seeded nb ids hist \<longleftrightarrow>
     (\<forall>e\<in>set hist.
        (seed_pos hist (snd e), snd e) \<in> set hist \<and>
        seed_pos hist (snd e) \<le> fst e \<and>
        (\<exists>k\<le>2. ids ! fst e \<in> reach nb (ids ! seed_pos hist (snd e)) k) \<and>
        (\<forall>e'\<in>set hist. fst e' < seed_pos hist (snd e) \<longrightarrow> snd e' < snd e))"


lemma seed_pos_append_old:
  assumes "e \<in> set hist"
  shows "seed_pos (hist @ new) (snd e) = seed_pos hist (snd e)"
proof -
  from assms have "filter (\<lambda>x. snd x = snd e) hist \<noteq> []"
    by (auto simp: filter_empty_conv)
  then show ?thesis by (simp add: seed_pos_def)
qed

lemma seed_pos_append_new:
  assumes "\<forall>e\<in>set hist. snd e \<noteq> c"
  shows "seed_pos (hist @ (k, c) # new) c = k"
proof -
  from assms have "filter (\<lambda>x. snd x = c) hist = []"
    by (auto simp: filter_empty_conv)
  then show ?thesis by (simp add: seed_pos_def)
qed

text \<open>
  Appending the writes of one cluster: the seed \<open>k\<close> with the fresh label \<open>c\<close>, then
  nodes at later positions within two steps of the seed.
\<close>

lemma seeded_append:
  assumes old: "seeded nb ids hist"
    and fresh: "\<forall>e\<in>set hist. snd e < c"
    and before: "\<forall>e\<in>set hist. seed_pos hist (snd e) < k"
    and new_lab: "\<forall>e\<in>set new. snd e = c"
    and new_pos: "\<forall>e\<in>set new. k \<le> fst e"
    and new_reach: "\<forall>e\<in>set new. \<exists>j\<le>2. ids ! fst e \<in> reach nb (ids ! k) j"
  shows "seeded nb ids (hist @ (k, c) # new) \<and>
         (\<forall>e\<in>set (hist @ (k, c) # new). seed_pos (hist @ (k, c) # new) (snd e) < Suc k)"
proof -
  let ?B = "(k, c) # new"
  let ?L = "hist @ ?B"
  have fresh': "\<forall>e\<in>set hist. snd e \<noteq> c" using fresh by auto
  have sp_new: "seed_pos ?L c = k" by (rule seed_pos_append_new [OF fresh'])
  have B_lab: "\<forall>e\<in>set ?B. snd e = c" using new_lab by simp
  have B_pos: "\<forall>e\<in>set ?B. k \<le> fst e" using new_pos by simp
  have B_reach: "\<forall>e\<in>set ?B. \<exists>j\<le>2. ids ! fst e \<in> reach nb (ids ! k) j"
  proof
    fix e assume "e \<in> set ?B"
    then consider "e = (k, c)" | "e \<in> set new" by auto
    then show "\<exists>j\<le>2. ids ! fst e \<in> reach nb (ids ! k) j"
    proof cases
      case 1
      have "ids ! k \<in> reach nb (ids ! k) 0" by simp
      with 1 show ?thesis by auto
    next
      case 2
      with new_reach show ?thesis by blast
    qed
  qed
  have old_case: "(seed_pos ?L (snd e), snd e) \<in> set ?L \<and>
        seed_pos ?L (snd e) \<le> fst e \<and>
        (\<exists>j\<le>2. ids ! fst e \<in> reach nb (ids ! seed_pos ?L (snd e)) j) \<and>
        (\<forall>e'\<in>set ?L. fst e' < seed_pos ?L (snd e) \<longrightarrow> snd e' < snd e) \<and>
        seed_pos ?L (snd e) < Suc k" if e: "e \<in> set hist" for e
  proof -
    have sp: "seed_pos ?L (snd e) = seed_pos hist (snd e)"
      by (rule seed_pos_append_old [OF e])
    from old e have o: "(seed_pos hist (snd e), snd e) \<in> set hist"
      "seed_pos hist (snd e) \<le> fst e"
      "\<exists>j\<le>2. ids ! fst e \<in> reach nb (ids ! seed_pos hist (snd e)) j"
      "\<forall>e'\<in>set hist. fst e' < seed_pos hist (snd e) \<longrightarrow> snd e' < snd e"
      unfolding seeded_def by blast+
    from before e have lt: "seed_pos hist (snd e) < k" by blast
    have "\<forall>e'\<in>set ?L. fst e' < seed_pos hist (snd e) \<longrightarrow> snd e' < snd e"
    proof (intro ballI impI)
      fix e' assume e': "e' \<in> set ?L" and less: "fst e' < seed_pos hist (snd e)"
      from e' consider "e' \<in> set hist" | "e' \<in> set ?B" by auto
      then show "snd e' < snd e"
      proof cases
        case 1
        with o(4) less show ?thesis by blast
      next
        case 2
        with B_pos have "k \<le> fst e'" by blast
        with less lt show ?thesis by simp
      qed
    qed
    with o(1-3) lt show ?thesis unfolding sp by simp
  qed
  have new_case: "(seed_pos ?L (snd e), snd e) \<in> set ?L \<and>
        seed_pos ?L (snd e) \<le> fst e \<and>
        (\<exists>j\<le>2. ids ! fst e \<in> reach nb (ids ! seed_pos ?L (snd e)) j) \<and>
        (\<forall>e'\<in>set ?L. fst e' < seed_pos ?L (snd e) \<longrightarrow> snd e' < snd e) \<and>
        seed_pos ?L (snd e) < Suc k" if e: "e \<in> set ?B" for e
  proof -
    from e B_lab have lab: "snd e = c" by blast
    have "\<forall>e'\<in>set ?L. fst e' < k \<longrightarrow> snd e' < c"
    proof (intro ballI impI)
      fix e' assume e': "e' \<in> set ?L" and less: "fst e' < k"
      from e' consider "e' \<in> set hist" | "e' \<in> set ?B" by auto
      then show "snd e' < c"
      proof cases
        case 1
        with fresh show ?thesis by blast
      next
        case 2
        with B_pos have "k \<le> fst e'" by blast
        with less show ?thesis by simp
      qed
    qed
    moreover from e B_pos have "k \<le> fst e" by blast
    moreover from e B_reach have "\<exists>j\<le>2. ids ! fst e \<in> reach nb (ids ! k) j" by blast
    ultimately show ?thesis unfolding lab sp_new by simp
  qed
  have all: "\<forall>e\<in>set ?L. (seed_pos ?L (snd e), snd e) \<in> set ?L \<and>
        seed_pos ?L (snd e) \<le> fst e \<and>
        (\<exists>j\<le>2. ids ! fst e \<in> reach nb (ids ! seed_pos ?L (snd e)) j) \<and>
        (\<forall>e'\<in>set ?L. fst e' < seed_pos ?L (snd e) \<longrightarrow> snd e' < snd e) \<and>
        seed_pos ?L (snd e) < Suc k"
  proof
    fix e assume "e \<in> set ?L"
    then consider "e \<in> set hist" | "e \<in> set ?B" by auto
    then show "(seed_pos ?L (snd e), snd e) \<in> set ?L \<and>
        seed_pos ?L (snd e) \<le> fst e \<and>
        (\<exists>j\<le>2. ids ! fst e \<in> reach nb (ids ! seed_pos ?L (snd e)) j) \<and>
        (\<forall>e'\<in>set ?L. fst e' < seed_pos ?L (snd e) \<longrightarrow> snd e' < snd e) \<and>
        seed_pos ?L (snd e) < Suc k"
      by cases (rule old_case, assumption, rule new_case, assumption)
  qed
  then have "seeded nb ids ?L" unfolding seeded_def by blast
  moreover from all have "\<forall>e\<in>set ?L. seed_pos ?L (snd e) < Suc k" by blast
  ultimately show ?thesis by blast
qed


text \<open>
  The writes of one cluster. A neighbour that is written is pushed on the queue; a level of
  the search takes the entries queued at its start, which are \<open>d\<close> steps from the seed,
  and writes and queues nodes \<open>d + 1\<close> steps from the seed; the search stops at depth two.
\<close>

lemma visit_neighbor_new:
  assumes "cl_inv ids st"
  shows "\<exists>new. assigned (visit_neighbor k st) = assigned st @ new \<and>
           (\<forall>e\<in>set new. ids ! fst e = k) \<and>
           c_queue (visit_neighbor k st) = c_queue st @ map (\<lambda>e. ids ! fst e) new"
proof (cases "find_node (c_nodes st) k")
  case None
  then show ?thesis by (simp add: visit_neighbor_def)
next
  case (Some i)
  from assms have ids: "map node_id (c_nodes st) = ids" by (simp add: cl_inv_def)
  from find_node_Some [OF Some] have i: "i < length (c_nodes st)" "node_id (c_nodes st ! i) = k"
    by simp_all
  from i ids have i': "ids ! i = k" by auto
  show ?thesis
  proof (cases "k \<in> c_visited st")
    case True
    with Some show ?thesis by (simp add: visit_neighbor_def)
  next
    case False
    with Some have "assigned (visit_neighbor k st) = assigned st @ [(i, c_clusterId st)]"
      and "c_queue (visit_neighbor k st) = c_queue st @ [k]"
      by (simp_all add: visit_neighbor_def set_cluster_def)
    with i' show ?thesis by simp
  qed
qed

lemma fold_visit_neighbor_new:
  "cl_inv ids st \<Longrightarrow>
   \<exists>new. assigned (fold visit_neighbor ks st) = assigned st @ new \<and>
         (\<forall>e\<in>set new. ids ! fst e \<in> set ks) \<and>
         c_queue (fold visit_neighbor ks st) = c_queue st @ map (\<lambda>e. ids ! fst e) new"
proof (induction ks arbitrary: st)
  case Nil
  then show ?case by simp
next
  case (Cons k ks)
  let ?st1 = "visit_neighbor k st"
  from visit_neighbor_new [OF Cons.prems, of k] obtain n1 where
    n1: "assigned ?st1 = assigned st @ n1" "\<forall>e\<in>set n1. ids ! fst e = k"
      "c_queue ?st1 = c_queue st @ map (\<lambda>e. ids ! fst e) n1"
    by blast
  from visit_neighbor_inv [OF Cons.prems, of k] have "cl_inv ids ?st1" by simp
  from Cons.IH [OF this] obtain n2 where
    n2: "assigned (fold visit_neighbor ks ?st1) = assigned ?st1 @ n2"
      "\<forall>e\<in>set n2. ids ! fst e \<in> set ks"
      "c_queue (fold visit_neighbor ks ?st1) = c_queue ?st1 @ map (\<lambda>e. ids ! fst e) n2"
    by blast
  have "assigned (fold visit_neighbor (k # ks) st) = assigned st @ (n1 @ n2)"
    by (simp add: n1(1) n2(1))
  moreover have "\<forall>e\<in>set (n1 @ n2). ids ! fst e \<in> set (k # ks)"
    using n1(2) n2(2) by auto
  moreover have "c_queue (fold visit_neighbor (k # ks) st) =
      c_queue st @ map (\<lambda>e. ids ! fst e) (n1 @ n2)"
    by (simp add: n1(3) n2(3))
  ultimately show ?case by blast
qed

lemma for_batch_reach:
  "cl_inv ids st \<Longrightarrow> n \<le> length (c_queue st) \<Longrightarrow>
   set (take n (c_queue st)) \<subseteq> reach (neighbors_of adj) r d \<Longrightarrow>
   \<exists>new. assigned (for_batch adj n st) = assigned st @ new \<and>
         (\<forall>e\<in>set new. ids ! fst e \<in> reach (neighbors_of adj) r (Suc d)) \<and>
         c_queue (for_batch adj n st) = drop n (c_queue st) @ map (\<lambda>e. ids ! fst e) new"
proof (induction n arbitrary: st)
  case 0
  then show ?case by simp
next
  case (Suc n)
  from Suc.prems(2) obtain u rest where qu: "c_queue st = u # rest"
    by (cases "c_queue st") auto
  from Suc.prems(2) qu have len: "n \<le> length rest" by simp
  from Suc.prems(3) qu have u: "u \<in> reach (neighbors_of adj) r d"
    and rest: "set (take n rest) \<subseteq> reach (neighbors_of adj) r d"
    by simp_all
  let ?st1 = "st\<lparr>c_queue := rest\<rparr>"
  let ?st2 = "fold visit_neighbor (neighbors_of adj u) ?st1"
  have step: "for_batch adj (Suc n) st = for_batch adj n ?st2"
    by (simp add: qu Let_def)
  from Suc.prems(1) have inv1: "cl_inv ids ?st1" by simp
  from fold_visit_neighbor_new [OF inv1, of "neighbors_of adj u"] obtain n1 where
    n1: "assigned ?st2 = assigned st @ n1" "\<forall>e\<in>set n1. ids ! fst e \<in> set (neighbors_of adj u)"
      "c_queue ?st2 = rest @ map (\<lambda>e. ids ! fst e) n1"
    by auto
  from fold_visit_neighbor_inv [OF inv1, of "neighbors_of adj u"] have inv2: "cl_inv ids ?st2"
    by simp
  from len have len2: "n \<le> length (c_queue ?st2)" by (simp add: n1(3))
  from len rest have take2: "set (take n (c_queue ?st2)) \<subseteq> reach (neighbors_of adj) r d"
    by (simp add: n1(3))
  from Suc.IH [OF inv2 len2 take2] obtain n2 where
    n2: "assigned (for_batch adj n ?st2) = assigned ?st2 @ n2"
      "\<forall>e\<in>set n2. ids ! fst e \<in> reach (neighbors_of adj) r (Suc d)"
      "c_queue (for_batch adj n ?st2) = drop n (c_queue ?st2) @ map (\<lambda>e. ids ! fst e) n2"
    by blast
  from n1(2) u have r1: "\<forall>e\<in>set n1. ids ! fst e \<in> reach (neighbors_of adj) r (Suc d)"
    by auto
  have "assigned (for_batch adj (Suc n) st) = assigned st @ (n1 @ n2)"
    unfolding step n2(1) n1(1) by simp
  moreover have "\<forall>e\<in>set (n1 @ n2). ids ! fst e \<in> reach (neighbors_of adj) r (Suc d)"
    using r1 n2(2) by auto
  moreover have "c_queue (for_batch adj (Suc n) st) =
      drop (Suc n) (c_queue st) @ map (\<lambda>e. ids ! fst e) (n1 @ n2)"
    unfolding step n2(3) n1(3) qu using len by simp
  ultimately show ?case by blast
qed

lemma cluster_bfs_reach:
  "cl_inv ids st \<Longrightarrow> set (c_queue st) \<subseteq> reach (neighbors_of adj) r depth \<Longrightarrow>
   \<exists>new. assigned (cluster_bfs adj depth st) = assigned st @ new \<and>
         (\<forall>e\<in>set new. \<exists>j\<le>2. ids ! fst e \<in> reach (neighbors_of adj) r j)"
proof (induction adj depth st rule: cluster_bfs.induct)
  case (1 adj depth st)
  show ?case
  proof (cases "c_queue st \<noteq> [] \<and> depth < 2")
    case True
    let ?st1 = "for_batch adj (length (c_queue st)) st"
    have eq: "cluster_bfs adj depth st = cluster_bfs adj (depth + 1) ?st1"
      using True by (subst cluster_bfs.simps) simp
    from "1.prems"(2) have "set (take (length (c_queue st)) (c_queue st)) \<subseteq>
        reach (neighbors_of adj) r depth" by simp
    from for_batch_reach [OF "1.prems"(1) order_refl this] obtain n1 where
      n1: "assigned ?st1 = assigned st @ n1"
        "\<forall>e\<in>set n1. ids ! fst e \<in> reach (neighbors_of adj) r (Suc depth)"
        "c_queue ?st1 = map (\<lambda>e. ids ! fst e) n1"
      by auto
    from for_batch_inv [OF "1.prems"(1)] have inv1: "cl_inv ids ?st1" by simp
    from n1(2,3) have "set (c_queue ?st1) \<subseteq> reach (neighbors_of adj) r (depth + 1)"
      by auto
    from "1.IH" [OF True inv1 this] obtain n2 where
      n2: "assigned (cluster_bfs adj (depth + 1) ?st1) = assigned ?st1 @ n2"
        "\<forall>e\<in>set n2. \<exists>j\<le>2. ids ! fst e \<in> reach (neighbors_of adj) r j"
      by blast
    from True have "Suc depth \<le> 2" by simp
    with n1(2) have "\<forall>e\<in>set n1. \<exists>j\<le>2. ids ! fst e \<in> reach (neighbors_of adj) r j"
      by blast
    with n2(2) have "\<forall>e\<in>set (n1 @ n2). \<exists>j\<le>2. ids ! fst e \<in> reach (neighbors_of adj) r j"
      by auto
    moreover have "assigned (cluster_bfs adj depth st) = assigned st @ (n1 @ n2)"
      unfolding eq n2(1) n1(1) by simp
    ultimately show ?thesis by blast
  next
    case False
    then have "cluster_bfs adj depth st = st" by (subst cluster_bfs.simps) auto
    then show ?thesis by simp
  qed
qed

text \<open>
  Between two steps of the outer loop, where \<open>sd i\<close> tells whether the loop started a
  cluster at position \<open>i\<close>: the history is well-seeded, its seeds are positions the loop
  has passed and started a cluster at, the counter is the number of clusters started, and
  the \<open>j\<close>-th start wrote the label \<open>j\<close>.
\<close>

definition cl_seeded ::
  "adjacency \<Rightarrow> pubkey list \<Rightarrow> (nat \<Rightarrow> bool) \<Rightarrow> nat \<Rightarrow> clustering \<Rightarrow> bool" where
  "cl_seeded adj ids sd k st \<longleftrightarrow>
     cl_outer ids k st \<and> seeded (neighbors_of adj) ids (assigned st) \<and>
     (\<forall>e\<in>set (assigned st). seed_pos (assigned st) (snd e) < k) \<and>
     (\<forall>e\<in>set (assigned st). sd (seed_pos (assigned st) (snd e))) \<and>
     c_clusterId st = length (filter sd [0..<k]) \<and>
     (\<forall>j<k. sd j \<longrightarrow> (j, length (filter sd [0..<j])) \<in> set (assigned st))"

lemma cluster_node_seeded:
  assumes dist: "distinct ids" and out: "cl_seeded adj ids sd k st" and k: "k < length ids"
    and sdk: "sd k \<longleftrightarrow> ids ! k \<notin> c_visited st"
  shows "cl_seeded adj ids sd (Suc k) (cluster_node adj k st)"
proof -
  from out have outer: "cl_outer ids k st"
    and sd: "seeded (neighbors_of adj) ids (assigned st)"
    and before: "\<forall>e\<in>set (assigned st). seed_pos (assigned st) (snd e) < k"
    and seeds: "\<forall>e\<in>set (assigned st). sd (seed_pos (assigned st) (snd e))"
    and count: "c_clusterId st = length (filter sd [0..<k])"
    and wrote: "\<forall>j<k. sd j \<longrightarrow> (j, length (filter sd [0..<j])) \<in> set (assigned st)"
    by (simp_all add: cl_seeded_def)
  from outer have inv: "cl_inv ids st"
    and labels: "snd ` set (assigned st) = {0..<c_clusterId st}"
    and cov: "{0..<k} \<subseteq> fst ` set (assigned st)"
    by (simp_all add: cl_outer_def)
  from inv have ids: "map node_id (c_nodes st) = ids" by (simp add: cl_inv_def)
  from ids k have idk: "node_id (c_nodes st ! k) = ids ! k" by auto
  have outer': "cl_outer ids (Suc k) (cluster_node adj k st)"
    by (rule cluster_node_outer [OF dist outer k])
  show ?thesis
  proof (cases "ids ! k \<in> c_visited st")
    case True
    then have same: "cluster_node adj k st = st"
      using idk by (simp add: cluster_node_def)
    from True sdk have nsd: "\<not> sd k" by simp
    from before have 1: "\<forall>e\<in>set (assigned st). seed_pos (assigned st) (snd e) < Suc k"
      by (simp add: less_Suc_eq)
    from count nsd have 2: "c_clusterId st = length (filter sd [0..<Suc k])" by simp
    from wrote nsd
    have 3: "\<forall>j<Suc k. sd j \<longrightarrow> (j, length (filter sd [0..<j])) \<in> set (assigned st)"
      by (auto simp: less_Suc_eq)
    from outer' sd seeds 1 2 3 show ?thesis unfolding cl_seeded_def same by blast
  next
    case False
    with sdk have sdk': "sd k" by simp
    let ?c = "c_clusterId st"
    let ?st1 = "set_cluster k (st\<lparr>c_visited := insert (ids ! k) (c_visited st)\<rparr>)"
    let ?st1q = "?st1\<lparr>c_queue := [ids ! k]\<rparr>"
    let ?st2 = "cluster_bfs adj 0 ?st1q"
    from set_cluster_inv [OF inv k False] have "cl_inv ids ?st1" by simp
    then have s1q: "cl_inv ids ?st1q" by simp
    from cluster_bfs_inv [OF s1q, of adj 0] have 2: "cl_inv ids ?st2" "cl_ext ?st1q ?st2"
      by simp_all
    have eq1: "set_cluster k (st\<lparr>c_queue := [ids ! k],
                   c_visited := insert (ids ! k) (c_visited st)\<rparr>) = ?st1q"
      by (simp add: set_cluster_def)
    have res: "cluster_node adj k st = ?st2\<lparr>c_clusterId := c_clusterId ?st2 + 1\<rparr>"
      using False idk by (simp add: cluster_node_def Let_def eq1)
    have c1: "c_clusterId ?st1q = ?c" and a1: "assigned ?st1q = assigned st @ [(k, ?c)]"
      and q1: "c_queue ?st1q = [ids ! k]"
      by (simp_all add: set_cluster_def)
    from 2(2) obtain new where new: "assigned ?st2 = assigned ?st1q @ new"
        "\<forall>e\<in>set new. snd e = c_clusterId ?st1q" and c2: "c_clusterId ?st2 = c_clusterId ?st1q"
      by (auto simp: cl_ext_def)
    have "set (c_queue ?st1q) \<subseteq> reach (neighbors_of adj) (ids ! k) 0"
      by (simp only: q1) simp
    from cluster_bfs_reach [OF s1q this] obtain new' where new': "assigned ?st2 = assigned ?st1q @ new'"
        "\<forall>e\<in>set new'. \<exists>j\<le>2. ids ! fst e \<in> reach (neighbors_of adj) (ids ! k) j"
      by blast
    from new(1) new'(1) have "new' = new" by simp
    with new'(2) have new_reach:
      "\<forall>e\<in>set new. \<exists>j\<le>2. ids ! fst e \<in> reach (neighbors_of adj) (ids ! k) j" by simp
    from new(2) have new_lab: "\<forall>e\<in>set new. snd e = ?c" by (simp only: c1)
    have a2: "assigned ?st2 = assigned st @ (k, ?c) # new" by (simp add: new(1) a1)
    from 2(1) have "distinct (map fst (assigned ?st2))" by (simp add: cl_inv_def)
    then have d2: "distinct (map fst (assigned st) @ k # map fst new)" by (simp add: a2)
    have new_pos: "\<forall>e\<in>set new. k \<le> fst e"
    proof
      fix e assume e: "e \<in> set new"
      then have "fst e \<in> set (map fst new)" by simp
      with d2 have "fst e \<notin> set (map fst (assigned st))" by auto
      then have "fst e \<notin> fst ` set (assigned st)" by simp
      with cov have "fst e \<notin> {0..<k}" by blast
      then show "k \<le> fst e" by simp
    qed
    have fresh: "\<forall>e\<in>set (assigned st). snd e < ?c"
    proof
      fix e assume "e \<in> set (assigned st)"
      then have "snd e \<in> snd ` set (assigned st)" by (rule imageI)
      then have "snd e \<in> {0..<?c}" by (simp only: labels)
      then show "snd e < ?c" by simp
    qed
    let ?H = "assigned st @ (k, ?c) # new"
    have app: "seeded (neighbors_of adj) ids ?H \<and> (\<forall>e\<in>set ?H. seed_pos ?H (snd e) < Suc k)"
      by (rule seeded_append [OF sd fresh before new_lab new_pos new_reach])
    have fresh': "\<forall>e\<in>set (assigned st). snd e \<noteq> ?c" using fresh by auto
    have seeds': "\<forall>e\<in>set ?H. sd (seed_pos ?H (snd e))"
    proof
      fix e assume "e \<in> set ?H"
      then consider "e \<in> set (assigned st)" | "e \<in> set ((k, ?c) # new)" by auto
      then show "sd (seed_pos ?H (snd e))"
      proof cases
        case 1
        with seeds show ?thesis by (simp only: seed_pos_append_old [OF 1])
      next
        case 2
        with new_lab have "snd e = ?c" by auto
        with sdk' show ?thesis by (simp only: seed_pos_append_new [OF fresh'])
      qed
    qed
    have count': "Suc ?c = length (filter sd [0..<Suc k])"
      using count sdk' by simp
    have wrote': "\<forall>j<Suc k. sd j \<longrightarrow> (j, length (filter sd [0..<j])) \<in> set ?H"
    proof (intro allI impI)
      fix j assume "j < Suc k" "sd j"
      then consider "j < k" | "j = k" by (auto simp: less_Suc_eq)
      then show "(j, length (filter sd [0..<j])) \<in> set ?H"
      proof cases
        case 1
        with wrote \<open>sd j\<close> show ?thesis by simp
      next
        case 2
        with count show ?thesis by simp
      qed
    qed
    have asg: "assigned (cluster_node adj k st) = ?H" by (simp add: res a2)
    have cid: "c_clusterId (cluster_node adj k st) = Suc ?c" by (simp add: res c2 c1)
    from outer' app seeds' count' wrote' show ?thesis
      unfolding cl_seeded_def asg cid by blast
  qed
qed

text \<open>
  The state in which the outer loop reaches position \<open>i\<close>, and whether it starts a cluster
  there: \<^verbatim>\<open>!visited.has(node.id)\<close>.
\<close>

definition outer_state :: "GraphNode list \<Rightarrow> GraphLink list \<Rightarrow> nat \<Rightarrow> clustering" where
  "outer_state ns ls i =
     fold (cluster_node (build_adjacency ns ls)) [0..<i]
       \<lparr>c_nodes = ns, c_visited = {}, c_clusterId = 0, c_queue = [], assigned = []\<rparr>"

definition is_seed :: "GraphNode list \<Rightarrow> GraphLink list \<Rightarrow> nat \<Rightarrow> bool" where
  "is_seed ns ls i \<longleftrightarrow>
     node_id (c_nodes (outer_state ns ls i) ! i) \<notin> c_visited (outer_state ns ls i)"

lemma outer_state_Suc:
  "outer_state ns ls (Suc i) = cluster_node (build_adjacency ns ls) i (outer_state ns ls i)"
  by (simp add: outer_state_def)

lemma outer_state_seeded:
  assumes "distinct (map node_id ns)"
  shows "n \<le> length ns \<Longrightarrow>
         cl_seeded (build_adjacency ns ls) (map node_id ns) (is_seed ns ls) n (outer_state ns ls n)"
proof (induction n)
  case 0
  show ?case
    by (simp add: outer_state_def cl_seeded_def cl_outer_def cl_inv_def seeded_def)
next
  case (Suc n)
  let ?st = "outer_state ns ls n"
  from Suc have IH: "cl_seeded (build_adjacency ns ls) (map node_id ns) (is_seed ns ls) n ?st"
    by simp
  then have "map node_id (c_nodes ?st) = map node_id ns"
    by (simp add: cl_seeded_def cl_outer_def cl_inv_def)
  moreover from Suc.prems have n: "n < length (map node_id ns)" by simp
  ultimately have "node_id (c_nodes ?st ! n) = map node_id ns ! n"
    by (metis length_map nth_map)
  then have "is_seed ns ls n \<longleftrightarrow> map node_id ns ! n \<notin> c_visited ?st"
    by (simp add: is_seed_def)
  from cluster_node_seeded [OF assms IH n this] show ?case
    by (simp only: outer_state_Suc)
qed

lemma reach_mono:
  "(\<And>u. set (nb u) \<subseteq> set (nb' u)) \<Longrightarrow> reach nb r k \<subseteq> reach nb' r k"
proof (induction k)
  case 0
  show ?case by simp
next
  case (Suc k)
  from Suc.IH [OF Suc.prems] Suc.prems show ?case by (simp only: reach.simps) blast
qed

lemma adjacency_hops:
  "reach (neighbors_of (build_adjacency ns ls)) r k \<subseteq> hops ls r k"
  unfolding hops_def by (rule reach_mono) (simp add: build_adjacency_neighbours)

lemma seeds_before:
  assumes "i < j" and "sd i"
  shows "length (filter sd [0..<i]) < length (filter sd [0..<j])"
proof -
  from assms(1) have "[0..<j] = [0..<i] @ i # [Suc i..<j]"
    by (metis upt_add_eq_append upt_conv_Cons le0 less_imp_add_positive add.left_neutral
        less_or_eq_imp_le)
  with assms(2) show ?thesis by simp
qed

lemma assignClusters_run_outer_state:
  "assignClusters_run ns ls = outer_state ns ls (length ns)"
  by (simp add: assignClusters_run_def outer_state_def)

lemma assignClusters_seeds:
  fixes ns :: "GraphNode list" and ls :: "GraphLink list"
  assumes "distinct (map node_id ns)"
  shows "c_clusterId (assignClusters_run ns ls) = length (filter (is_seed ns ls) [0..<length ns])"
    and "\<forall>i<length ns. is_seed ns ls i \<longrightarrow>
           cluster (assignClusters ns ls ! i) = Some (length (filter (is_seed ns ls) [0..<i]))"
    and "\<forall>i<length ns. \<exists>s\<le>i. is_seed ns ls s \<and>
           cluster (assignClusters ns ls ! i) = cluster (assignClusters ns ls ! s) \<and>
           (\<exists>k\<le>2. node_id (ns ! i) \<in> hops ls (node_id (ns ! s)) k)"
proof -
  let ?st = "assignClusters_run ns ls"
  let ?ids = "map node_id ns"
  let ?adj = "build_adjacency ns ls"
  let ?H = "assigned ?st"
  have "cl_seeded ?adj ?ids (is_seed ns ls) (length ns) ?st"
    unfolding assignClusters_run_outer_state
    by (rule outer_state_seeded [OF assms order_refl])
  then have sd: "seeded (neighbors_of ?adj) ?ids ?H"
    and seeds: "\<forall>e\<in>set ?H. is_seed ns ls (seed_pos ?H (snd e))"
    and count: "c_clusterId ?st = length (filter (is_seed ns ls) [0..<length ns])"
    and wrote: "\<forall>j<length ns. is_seed ns ls j \<longrightarrow>
                  (j, length (filter (is_seed ns ls) [0..<j])) \<in> set ?H"
    by (simp_all add: cl_seeded_def)
  from assignClusters_run_correct(4,5) [OF assms, of ls]
  have idx: "fst ` set ?H = {0..<length ns}"
    and lab: "\<forall>e\<in>set ?H. cluster (assignClusters ns ls ! fst e) = Some (snd e)"
    by (simp_all add: assignClusters_def)
  from count show "c_clusterId ?st = length (filter (is_seed ns ls) [0..<length ns])" .
  show "\<forall>i<length ns. is_seed ns ls i \<longrightarrow>
           cluster (assignClusters ns ls ! i) = Some (length (filter (is_seed ns ls) [0..<i]))"
  proof (intro allI impI)
    fix i assume "i < length ns" "is_seed ns ls i"
    with wrote have "(i, length (filter (is_seed ns ls) [0..<i])) \<in> set ?H" by blast
    with lab show "cluster (assignClusters ns ls ! i) =
        Some (length (filter (is_seed ns ls) [0..<i]))" by force
  qed
  show "\<forall>i<length ns. \<exists>s\<le>i. is_seed ns ls s \<and>
           cluster (assignClusters ns ls ! i) = cluster (assignClusters ns ls ! s) \<and>
           (\<exists>k\<le>2. node_id (ns ! i) \<in> hops ls (node_id (ns ! s)) k)"
  proof (intro allI impI)
    fix i assume i: "i < length ns"
    then have "i \<in> fst ` set ?H" by (simp add: idx)
    then obtain e where e: "e \<in> set ?H" "fst e = i" by auto
    define s where "s = seed_pos ?H (snd e)"
    from sd e(1) have in_H: "(s, snd e) \<in> set ?H" and le: "s \<le> fst e"
      and rch: "\<exists>k\<le>2. ?ids ! fst e \<in> reach (neighbors_of ?adj) (?ids ! s) k"
      unfolding seeded_def s_def by blast+
    from seeds e(1) have seed: "is_seed ns ls s" unfolding s_def by blast
    from le e(2) have le': "s \<le> i" by simp
    with i have s: "s < length ns" by simp
    from lab e have "cluster (assignClusters ns ls ! i) = Some (snd e)" by blast
    moreover from lab in_H have "cluster (assignClusters ns ls ! s) = Some (snd e)" by force
    ultimately have same: "cluster (assignClusters ns ls ! i) = cluster (assignClusters ns ls ! s)"
      by simp
    from rch obtain k where k: "k \<le> 2" "?ids ! i \<in> reach (neighbors_of ?adj) (?ids ! s) k"
      unfolding e(2) by blast
    from k(2) adjacency_hops [of ns ls "?ids ! s" k] have "?ids ! i \<in> hops ls (?ids ! s) k"
      by blast
    with i s have "node_id (ns ! i) \<in> hops ls (node_id (ns ! s)) k" by simp
    with k(1) have "\<exists>k\<le>2. node_id (ns ! i) \<in> hops ls (node_id (ns ! s)) k" by blast
    with le' seed same
    show "\<exists>s\<le>i. is_seed ns ls s \<and>
           cluster (assignClusters ns ls ! i) = cluster (assignClusters ns ls ! s) \<and>
           (\<exists>k\<le>2. node_id (ns ! i) \<in> hops ls (node_id (ns ! s)) k)" by blast
  qed
qed

text \<open>
  A chain of four follows from the start identity a, depth 4: the clusters have depth two,
  so the pass starts one cluster at a and a second one at d.
\<close>

definition chain_snapshot :: GraphData where
  "chain_snapshot =
     \<lparr>nodes = [\<lparr>node_id = Some ''a'', val = 10, inDegree = 0, outDegree = 1, isHub = False,
                 cluster = Some 0, degreesFromRoot = None\<rparr>,
               \<lparr>node_id = Some ''b'', val = 4, inDegree = 1, outDegree = 1, isHub = False,
                 cluster = Some 0, degreesFromRoot = None\<rparr>,
               \<lparr>node_id = Some ''c'', val = 4, inDegree = 1, outDegree = 1, isHub = False,
                 cluster = Some 0, degreesFromRoot = None\<rparr>,
               \<lparr>node_id = Some ''d'', val = 4, inDegree = 1, outDegree = 1, isHub = False,
                 cluster = Some 1, degreesFromRoot = None\<rparr>,
               \<lparr>node_id = Some ''e'', val = 7 / 2, inDegree = 1, outDegree = 0, isHub = False,
                 cluster = Some 1, degreesFromRoot = None\<rparr>],
      links = [\<lparr>source = Some ''a'', target = Some ''b'', isBidirectional = False\<rparr>,
               \<lparr>source = Some ''b'', target = Some ''c'', isBidirectional = False\<rparr>,
               \<lparr>source = Some ''c'', target = Some ''d'', isBidirectional = False\<rparr>,
               \<lparr>source = Some ''d'', target = Some ''e'', isBidirectional = False\<rparr>],
      stats = \<lparr>totalNodes = 5, totalLinks = 4, hubs = 0, bidirectionalLinks = 0, clusters = 2\<rparr>\<rparr>"

lemma chain_run:
  "useWebOfTrust
     (relay [follows ''a'' [''b''], follows ''b'' [''c''], follows ''c'' [''d''],
             follows ''d'' [''e'']]) (Some ''a'') 4 100 None =
   Some chain_snapshot"
  by code_simp

lemma chain_ids: "distinct (map node_id (nodes chain_snapshot))"
  by (simp add: chain_snapshot_def)

lemma chain_seeds:
  "filter (is_seed (nodes chain_snapshot) (links chain_snapshot))
     [0..<length (nodes chain_snapshot)] = [0, 3]"
  by code_simp

lemma chain_labels:
  "map cluster (assignClusters (nodes chain_snapshot) (links chain_snapshot)) =
   [Some 0, Some 0, Some 0, Some 1, Some 1]"
  by code_simp

text \<open>
  C7. For a node array of different identities, the pass writes the \<open>cluster\<close> field of
  every position exactly once (\<open>assigned\<close> lists each position once), every node ends
  with the label written to it, and the labels written, in the order of writing, never
  decrease and are exactly the values \<open>0, \<dots>, c_clusterId - 1\<close> of the counter. The
  counter ends at the number of positions at which the outer loop started a cluster; the
  node at such a position ends with the number of clusters started before it as its label,
  so the labels of the starts are \<open>0, 1, 2, \<dots>\<close> in the order of the node array and a later
  start never gets the label of an earlier one; and every node ends with the label of a
  start that is at its own or an earlier position and at most two links away from it, the
  links taken as undirected. The nodes of a snapshot have different identities and carry
  the labels of such a pass, so every node of a snapshot has a label.
\<close>

theorem C7_clustering_complete:
  "(distinct (map node_id ns) \<longrightarrow>
      (\<forall>n\<in>set (assignClusters ns ls). cluster n \<noteq> None) \<and>
      distinct (map fst (assigned (assignClusters_run ns ls))) \<and>
      fst ` set (assigned (assignClusters_run ns ls)) = {0..<length ns} \<and>
      (\<forall>e\<in>set (assigned (assignClusters_run ns ls)).
         cluster (assignClusters ns ls ! fst e) = Some (snd e)) \<and>
      sorted (map snd (assigned (assignClusters_run ns ls))) \<and>
      snd ` set (assigned (assignClusters_run ns ls)) =
        {0..<c_clusterId (assignClusters_run ns ls)} \<and>
      c_clusterId (assignClusters_run ns ls) =
        length (filter (is_seed ns ls) [0..<length ns]) \<and>
      (\<forall>i<length ns. is_seed ns ls i \<longrightarrow>
         cluster (assignClusters ns ls ! i) = Some (length (filter (is_seed ns ls) [0..<i]))) \<and>
      (\<forall>i<length ns. \<forall>j<length ns. is_seed ns ls i \<and> is_seed ns ls j \<and> i < j \<longrightarrow>
         (\<exists>c c'. cluster (assignClusters ns ls ! i) = Some c \<and>
                 cluster (assignClusters ns ls ! j) = Some c' \<and> c < c')) \<and>
      (\<forall>i<length ns. \<exists>s\<le>i. is_seed ns ls s \<and>
         cluster (assignClusters ns ls ! i) = cluster (assignClusters ns ls ! s) \<and>
         (\<exists>k\<le>2. node_id (ns ! i) \<in> hops ls (node_id (ns ! s)) k))) \<and>
   (useWebOfTrust q sp d limit r = Some g \<longrightarrow>
      (\<forall>n\<in>set (nodes g). cluster n \<noteq> None) \<and>
      (\<exists>ns'. distinct (map node_id ns') \<and> map node_id ns' = map node_id (nodes g) \<and>
             map cluster (nodes g) = map cluster (assignClusters ns' (links g))))"
proof (intro conjI; intro impI)
  assume dist: "distinct (map node_id ns)"
  have old: "(\<forall>n\<in>set (assignClusters ns ls). cluster n \<noteq> None) \<and>
      distinct (map fst (assigned (assignClusters_run ns ls))) \<and>
      fst ` set (assigned (assignClusters_run ns ls)) = {0..<length ns} \<and>
      (\<forall>e\<in>set (assigned (assignClusters_run ns ls)).
         cluster (assignClusters ns ls ! fst e) = Some (snd e)) \<and>
      sorted (map snd (assigned (assignClusters_run ns ls))) \<and>
      snd ` set (assigned (assignClusters_run ns ls)) =
        {0..<c_clusterId (assignClusters_run ns ls)}"
    using assignClusters_run_correct(2-7) [OF dist, of ls]
    unfolding assignClusters_def by blast
  note s = assignClusters_seeds [OF dist, of ls]
  have order: "\<forall>i<length ns. \<forall>j<length ns. is_seed ns ls i \<and> is_seed ns ls j \<and> i < j \<longrightarrow>
         (\<exists>c c'. cluster (assignClusters ns ls ! i) = Some c \<and>
                 cluster (assignClusters ns ls ! j) = Some c' \<and> c < c')"
  proof (intro allI impI)
    fix i j assume i: "i < length ns" and j: "j < length ns"
      and ij: "is_seed ns ls i \<and> is_seed ns ls j \<and> i < j"
    from s(2) i ij have "cluster (assignClusters ns ls ! i) =
        Some (length (filter (is_seed ns ls) [0..<i]))" by blast
    moreover from s(2) j ij have "cluster (assignClusters ns ls ! j) =
        Some (length (filter (is_seed ns ls) [0..<j]))" by blast
    moreover from ij have "length (filter (is_seed ns ls) [0..<i]) <
        length (filter (is_seed ns ls) [0..<j])" by (simp add: seeds_before)
    ultimately show "\<exists>c c'. cluster (assignClusters ns ls ! i) = Some c \<and>
                 cluster (assignClusters ns ls ! j) = Some c' \<and> c < c'" by blast
  qed
  from old s(1) s(2) order s(3)
  show "(\<forall>n\<in>set (assignClusters ns ls). cluster n \<noteq> None) \<and>
      distinct (map fst (assigned (assignClusters_run ns ls))) \<and>
      fst ` set (assigned (assignClusters_run ns ls)) = {0..<length ns} \<and>
      (\<forall>e\<in>set (assigned (assignClusters_run ns ls)).
         cluster (assignClusters ns ls ! fst e) = Some (snd e)) \<and>
      sorted (map snd (assigned (assignClusters_run ns ls))) \<and>
      snd ` set (assigned (assignClusters_run ns ls)) =
        {0..<c_clusterId (assignClusters_run ns ls)} \<and>
      c_clusterId (assignClusters_run ns ls) =
        length (filter (is_seed ns ls) [0..<length ns]) \<and>
      (\<forall>i<length ns. is_seed ns ls i \<longrightarrow>
         cluster (assignClusters ns ls ! i) = Some (length (filter (is_seed ns ls) [0..<i]))) \<and>
      (\<forall>i<length ns. \<forall>j<length ns. is_seed ns ls i \<and> is_seed ns ls j \<and> i < j \<longrightarrow>
         (\<exists>c c'. cluster (assignClusters ns ls ! i) = Some c \<and>
                 cluster (assignClusters ns ls ! j) = Some c' \<and> c < c')) \<and>
      (\<forall>i<length ns. \<exists>s\<le>i. is_seed ns ls s \<and>
         cluster (assignClusters ns ls ! i) = cluster (assignClusters ns ls ! s) \<and>
         (\<exists>k\<le>2. node_id (ns ! i) \<in> hops ls (node_id (ns ! s)) k))"
    apply -
    apply (elim conjE)
    apply (intro conjI)
             apply assumption+
    done
next
  assume g: "useWebOfTrust q sp d limit r = Some g"
  then obtain t where t: "collect q sp d limit = Some t"
    and ns: "nodes g =
          (if truthy r
           then calculateDegreesOfSeparation
                  (assignClusters (detect_hubs (Map_values (nodesMap (degrees t)))) (links g))
                  (links g) r
           else assignClusters (detect_hubs (Map_values (nodesMap (degrees t)))) (links g))"
    by (rule useWebOfTrust_unfold)
  let ?ns0 = "detect_hubs (Map_values (nodesMap (degrees t)))"
  have ids0: "map node_id ?ns0 = map fst (nodesMap t)" by (rule hub_node_ids [OF t])
  have d0: "distinct (map node_id ?ns0)"
    using collect_graph_ok [OF t] by (simp add: ids0 graph_ok_def)
  have ids: "map node_id ?ns0 = map node_id (nodes g)"
    by (simp only: ids0 snapshot_node_ids [OF g t])
  have cl: "map cluster (nodes g) = map cluster (assignClusters ?ns0 (links g))"
    unfolding ns by (simp add: calculateDegreesOfSeparation_frame [where p = cluster])
  have all: "\<forall>n\<in>set (nodes g). cluster n \<noteq> None"
  proof
    fix n assume "n \<in> set (nodes g)"
    then have "cluster n \<in> set (map cluster (nodes g))" by simp
    then have "cluster n \<in> set (map cluster (assignClusters ?ns0 (links g)))"
      by (simp only: cl)
    then obtain n' where "n' \<in> set (assignClusters ?ns0 (links g))" "cluster n = cluster n'"
      by auto
    with assignClusters_run_correct(2) [OF d0, of "links g"] show "cluster n \<noteq> None"
      by (simp add: assignClusters_def)
  qed
  from d0 ids cl have "\<exists>ns'. distinct (map node_id ns') \<and> map node_id ns' = map node_id (nodes g) \<and>
             map cluster (nodes g) = map cluster (assignClusters ns' (links g))"
    by blast
  with all show "(\<forall>n\<in>set (nodes g). cluster n \<noteq> None) \<and>
      (\<exists>ns'. distinct (map node_id ns') \<and> map node_id ns' = map node_id (nodes g) \<and>
             map cluster (nodes g) = map cluster (assignClusters ns' (links g)))"
    by blast
qed

theorem C7_clustering_complete_witness:
  "distinct (map node_id (nodes chain_snapshot)) \<and>
   list_all (\<lambda>n. cluster n \<noteq> None)
     (assignClusters (nodes chain_snapshot) (links chain_snapshot)) \<and>
   fst ` set (assigned (assignClusters_run (nodes chain_snapshot) (links chain_snapshot))) =
     {0..<length (nodes chain_snapshot)} \<and>
   c_clusterId (assignClusters_run (nodes chain_snapshot) (links chain_snapshot)) =
     length (filter (is_seed (nodes chain_snapshot) (links chain_snapshot))
               [0..<length (nodes chain_snapshot)]) \<and>
   filter (is_seed (nodes chain_snapshot) (links chain_snapshot))
     [0..<length (nodes chain_snapshot)] = [0, 3] \<and>
   c_clusterId (assignClusters_run (nodes chain_snapshot) (links chain_snapshot)) = 2 \<and>
   map cluster (assignClusters (nodes chain_snapshot) (links chain_snapshot)) =
     [Some 0, Some 0, Some 0, Some 1, Some 1] \<and>
   useWebOfTrust
     (relay [follows ''a'' [''b''], follows ''b'' [''c''], follows ''c'' [''d''],
             follows ''d'' [''e'']]) (Some ''a'') 4 100 None = Some chain_snapshot \<and>
   list_all (\<lambda>n. cluster n \<noteq> None) (nodes chain_snapshot)"
proof -
  note inst = C7_clustering_complete [where ns = "nodes chain_snapshot"
      and ls = "links chain_snapshot"
      and q = "relay [follows ''a'' [''b''], follows ''b'' [''c''], follows ''c'' [''d''],
                      follows ''d'' [''e'']]"
      and sp = "Some ''a''" and d = 4 and limit = 100 and r = None and g = chain_snapshot]
  from inst chain_ids
  have 1: "\<forall>n\<in>set (assignClusters (nodes chain_snapshot) (links chain_snapshot)). cluster n \<noteq> None"
    and 2: "fst ` set (assigned (assignClusters_run (nodes chain_snapshot) (links chain_snapshot))) =
     {0..<length (nodes chain_snapshot)}"
    and 3: "c_clusterId (assignClusters_run (nodes chain_snapshot) (links chain_snapshot)) =
     length (filter (is_seed (nodes chain_snapshot) (links chain_snapshot))
               [0..<length (nodes chain_snapshot)])"
    by blast+
  from inst chain_run have 4: "\<forall>n\<in>set (nodes chain_snapshot). cluster n \<noteq> None" by blast
  from 3 have 5: "c_clusterId (assignClusters_run (nodes chain_snapshot) (links chain_snapshot)) = 2"
    by (simp only: chain_seeds) simp
  from chain_ids 1 2 3 chain_seeds 5 chain_labels chain_run 4 show ?thesis
    unfolding list_all_iff by (intro conjI)
qed

end
